theory Spec2Isabelle
  imports Main
begin

section \<open>The message queue of index.js\<close>

text \<open>
  The program keeps one JSON file, \<^verbatim>\<open>queue.json\<close>, that holds an array of message
  records and an object of pairing records. HTTP handlers append messages, issue pairing
  codes and clear the queue; a worker (\<^verbatim>\<open>processQueueOnce\<close>) sends every queued message
  through a Puppeteer page and writes the outcome back into the file.

  The embedding follows the source function by function. JavaScript values are typed the
  way the handler's doc comment declares them: the fields of a request body are strings or
  missing, a property that an object does not have (or that is \<^verbatim>\<open>null\<close>) is \<open>None\<close>.
\<close>

subsection \<open>Data\<close>

text \<open>The \<^verbatim>\<open>status\<close> field: \<^verbatim>\<open>'queued' | 'sent' | 'failed'\<close> (comment at line 50).\<close>

datatype status = Queued | Sent | Failed

text \<open>
  The object built at lines 44--52, with the two properties that the worker adds later
  (\<^verbatim>\<open>sentAt\<close>, line 184, and \<^verbatim>\<open>attemptedAt\<close>, line 194). \<^verbatim>\<open>id\<close> and \<^verbatim>\<open>text\<close> carry the
  suffix \<open>_m\<close>.
\<close>

record message =
  id_m :: string
  toThreadId :: string
  text_m :: string
  senderName :: "string option"
  createdAt :: string
  status :: status
  lastError :: "string option"
  sentAt :: "string option"
  attemptedAt :: "string option"

text \<open>The value stored under a pairing code: \<^verbatim>\<open>{ createdAt: ... }\<close> (line 69).\<close>

record pairing =
  createdAt_p :: string

text \<open>The object held in the file: \<^verbatim>\<open>{ messages: [...], pairings: {...} }\<close>.\<close>

record queue_state =
  messages :: "message list"
  pairings :: "string \<rightharpoonup> pairing"

text \<open>
  A thrown value. Everything that the Puppeteer calls and the source itself throw is an
  \<^verbatim>\<open>Error\<close> object, with a \<^verbatim>\<open>name\<close> and a \<^verbatim>\<open>message\<close>.
\<close>

datatype js_error = Error (err_name: string) (err_message: string)

text \<open>\<^verbatim>\<open>String(err)\<close>, that is \<^verbatim>\<open>Error.prototype.toString\<close>.\<close>

definition String_of_error :: "js_error \<Rightarrow> string" where
  "String_of_error e =
     (if err_name e = [] then err_message e
      else if err_message e = [] then err_name e
      else err_name e @ '': '' @ err_message e)"

subsection \<open>The file: readDb and writeDb (lines 17--28)\<close>

text \<open>
  The text of the file is kept up to what \<^verbatim>\<open>JSON.parse\<close> makes of it: \<open>Garbage\<close> is any
  text on which \<^verbatim>\<open>JSON.parse\<close> throws a \<^verbatim>\<open>SyntaxError\<close>, \<open>Json db\<close> is the text
  \<^verbatim>\<open>JSON.stringify(db, null, 2)\<close>, which parses back to \<open>db\<close>. The disk either has no
  file at \<^verbatim>\<open>DB_FILE\<close> (\<open>None\<close>: \<^verbatim>\<open>fs.existsSync\<close> is false and \<^verbatim>\<open>fs.readFileSync\<close>
  throws) or has one.
  \<^verbatim>\<open>fs.writeFileSync\<close> is taken to succeed. JSON text of another shape, which the program
  never writes, is left out.
\<close>

datatype file_content = Garbage | Json queue_state

type_synonym disk = "file_content option"

definition readFileSync :: "disk \<Rightarrow> js_error + file_content" where
  "readFileSync d =
     (case d of
        None \<Rightarrow> Inl (Error ''Error'' ''ENOENT: no such file or directory'')
      | Some c \<Rightarrow> Inr c)"

definition JSON_parse :: "file_content \<Rightarrow> js_error + queue_state" where
  "JSON_parse c =
     (case c of
        Garbage \<Rightarrow> Inl (Error ''SyntaxError'' ''Unexpected token'')
      | Json db \<Rightarrow> Inr db)"

definition JSON_stringify :: "queue_state \<Rightarrow> file_content" where
  "JSON_stringify db = Json db"

definition empty_state :: queue_state where
  "empty_state = \<lparr>messages = [], pairings = Map.empty\<rparr>"

text \<open>
  \<^verbatim>\<open>
  function readDb() {
    try { return JSON.parse(fs.readFileSync(DB_FILE, 'utf8')); }
    catch (e) { return { messages: [], pairings: {} }; }
  }
  \<close>
\<close>

definition readDb :: "disk \<Rightarrow> queue_state" where
  "readDb d =
     (case readFileSync d of
        Inl e \<Rightarrow> empty_state
      | Inr c \<Rightarrow> (case JSON_parse c of Inl e \<Rightarrow> empty_state | Inr db \<Rightarrow> db))"

definition writeDb :: "queue_state \<Rightarrow> disk" where
  "writeDb db = Some (JSON_stringify db)"

text \<open>Line 28: \<^verbatim>\<open>if (!fs.existsSync(DB_FILE)) writeDb({ messages: [], pairings: {} })\<close>.\<close>

definition startup :: "disk \<Rightarrow> disk" where
  "startup d = (if d = None then writeDb empty_state else d)"

subsection \<open>The HTTP handlers (lines 39--80)\<close>

text \<open>
  A request body of \<^verbatim>\<open>POST /api/send\<close>; \<open>None\<close> is a property that is missing or
  \<^verbatim>\<open>null\<close>.
\<close>

record send_body =
  body_toThreadId :: "string option"
  body_text :: "string option"
  body_senderName :: "string option"

text \<open>\<^verbatim>\<open>!x\<close> for a string that may be missing: missing, \<^verbatim>\<open>null\<close> and \<^verbatim>\<open>""\<close> are falsy.\<close>

definition falsy :: "string option \<Rightarrow> bool" where
  "falsy x = (case x of None \<Rightarrow> True | Some s \<Rightarrow> s = [])"

datatype send_response =
  Status400 string
  | SendOk string

text \<open>
  \<^verbatim>\<open>POST /api/send\<close>. \<open>uuid\<close> is what \<^verbatim>\<open>uuidv4()\<close> returns and \<open>now\<close> what
  \<^verbatim>\<open>new Date().toISOString()\<close> returns. The result is the response and the disk.
\<close>

definition api_send :: "string \<Rightarrow> string \<Rightarrow> send_body \<Rightarrow> disk \<Rightarrow> send_response \<times> disk" where
  "api_send uuid now body d =
     (if falsy (body_toThreadId body) \<or> falsy (body_text body)
      then (Status400 ''toThreadId and text required'', d)
      else
        let db = readDb d;
            item = \<lparr>id_m = uuid,
                    toThreadId = the (body_toThreadId body),
                    text_m = the (body_text body),
                    senderName = (if falsy (body_senderName body) then None
                                  else body_senderName body),
                    createdAt = now,
                    status = Queued,
                    lastError = None,
                    sentAt = None,
                    attemptedAt = None\<rparr>;
            db' = db\<lparr>messages := messages db @ [item]\<rparr>
        in (SendOk (id_m item), writeDb db'))"

text \<open>\<^verbatim>\<open>GET /api/queue\<close>.\<close>

definition api_queue :: "disk \<Rightarrow> message list" where
  "api_queue d = messages (readDb d)"

text \<open>
  \<^verbatim>\<open>Math.random().toString(36)\<close>. \<^verbatim>\<open>Math.random()\<close> is a number in \<open>[0, 1)\<close>; in radix 36
  it prints as \<^verbatim>\<open>0\<close> when it is zero and as \<^verbatim>\<open>0.\<close> followed by its fractional digits
  otherwise. The number is given by the list of those digits, each below 36.
\<close>

definition digits36 :: string where
  "digits36 = ''0123456789abcdefghijklmnopqrstuvwxyz''"

definition toString36 :: "nat list \<Rightarrow> string" where
  "toString36 ds = (if ds = [] then ''0'' else ''0.'' @ map (\<lambda>d. digits36 ! d) ds)"

text \<open>\<^verbatim>\<open>s.slice(b, e)\<close> for indices that are not negative.\<close>

definition slice :: "nat \<Rightarrow> nat \<Rightarrow> string \<Rightarrow> string" where
  "slice b e s = take (e - b) (drop b s)"

text \<open>\<^verbatim>\<open>s.toUpperCase()\<close> on ASCII text: \<^verbatim>\<open>a\<close>..\<^verbatim>\<open>z\<close> move to \<^verbatim>\<open>A\<close>..\<^verbatim>\<open>Z\<close>.\<close>

definition toUpperCase_char :: "char \<Rightarrow> char" where
  "toUpperCase_char c =
     (let n = (of_char c :: nat)
      in if 97 \<le> n \<and> n \<le> 122 then char_of (n - 32) else c)"

definition toUpperCase :: "string \<Rightarrow> string" where
  "toUpperCase s = map toUpperCase_char s"

text \<open>Line 67: \<^verbatim>\<open>Math.random().toString(36).slice(2, 8).toUpperCase()\<close>.\<close>

definition pairing_code :: "nat list \<Rightarrow> string" where
  "pairing_code ds = toUpperCase (slice 2 8 (toString36 ds))"

text \<open>\<^verbatim>\<open>POST /api/pair\<close>; \<open>ds\<close> are the digits of \<^verbatim>\<open>Math.random()\<close>.\<close>

definition api_pair :: "nat list \<Rightarrow> string \<Rightarrow> disk \<Rightarrow> string \<times> disk" where
  "api_pair ds now d =
     (let code = pairing_code ds;
          db = readDb d;
          db' = db\<lparr>pairings := (pairings db)(code \<mapsto> \<lparr>createdAt_p = now\<rparr>)\<rparr>
      in (code, writeDb db'))"

text \<open>\<^verbatim>\<open>POST /api/clear-queue\<close>.\<close>

definition api_clear_queue :: "disk \<Rightarrow> disk" where
  "api_clear_queue d = (let db = readDb d; db' = db\<lparr>messages := []\<rparr> in writeDb db')"

subsection \<open>The worker (lines 158--202)\<close>

text \<open>
  \<^verbatim>\<open>ensureBrowser\<close> and \<^verbatim>\<open>sendMessageToThread\<close> drive Puppeteer and never touch
  \<^verbatim>\<open>DB_FILE\<close>. What they do to the browser is not looked into: the browser, the network
  and the clock are a state \<open>'w\<close>, and the functions are given as they act on it. Every
  statement below holds for all of them.

  \<open>processQueueOnce\<close> below is one cycle that runs from its first line to its last
  with nothing else writing the file in between. What happens when requests arrive or
  another cycle starts while a cycle waits for the browser is the subject of the
  section on the process.
\<close>

datatype 'a attempt = Returned 'a | Threw js_error

text \<open>
  \<^verbatim>\<open>page.evaluate(...)\<close>: the call throws at once when \<^verbatim>\<open>page\<close> is \<^verbatim>\<open>null\<close>, otherwise
  its promise is fulfilled with a boolean or rejected.
\<close>

datatype promise_bool = CallThrew js_error | Fulfilled bool | Rejected js_error

record 'w session =
  ensureBrowser :: "'w \<Rightarrow> unit attempt \<times> 'w"
  page_evaluate :: "'w \<Rightarrow> promise_bool"
  sendMessageToThread :: "string \<Rightarrow> string \<Rightarrow> 'w \<Rightarrow> unit attempt \<times> 'w"
  toISOString_now :: "'w \<Rightarrow> string"

text \<open>
  \<^verbatim>\<open>db2.messages.find(m => m.id === msg.id)\<close> returns a reference to the first record with
  that id, which the assignments that follow change in place. The reference is the
  record's index.
\<close>

fun find_ref :: "('a \<Rightarrow> bool) \<Rightarrow> 'a list \<Rightarrow> nat option" where
  "find_ref P [] = None"
| "find_ref P (x # xs) =
     (if P x then Some 0 else (case find_ref P xs of None \<Rightarrow> None | Some i \<Rightarrow> Some (Suc i)))"

text \<open>Lines 183--184 and 192--194: the assignments to \<^verbatim>\<open>target\<close>.\<close>

definition mark_sent :: "string \<Rightarrow> message \<Rightarrow> message" where
  "mark_sent now target = target\<lparr>status := Sent, sentAt := Some now\<rparr>"

definition mark_failed :: "js_error \<Rightarrow> string \<Rightarrow> message \<Rightarrow> message" where
  "mark_failed err now target =
     target\<lparr>status := Failed,
            lastError := Some (if err_message err \<noteq> [] then err_message err
                               else String_of_error err),
            attemptedAt := Some now\<rparr>"

text \<open>
  Lines 180--186 and 189--196: read the file again, look the record up by id, and write
  the file only when the record is there.
\<close>

definition write_back :: "(message \<Rightarrow> message) \<Rightarrow> string \<Rightarrow> disk \<Rightarrow> disk" where
  "write_back mark msg_id d =
     (let db2 = readDb d
      in case find_ref (\<lambda>m. id_m m = msg_id) (messages db2) of
           None \<Rightarrow> d
         | Some i \<Rightarrow>
             writeDb (db2\<lparr>messages := (messages db2)[i := mark (messages db2 ! i)]\<rparr>))"

text \<open>The calls that a cycle makes to the session, in order.\<close>

datatype session_call = EnsureBrowser | PageEvaluate | SendMessage string string

text \<open>The loop of lines 176--198 over the records that were queued when the cycle began.\<close>

fun send_queued ::
  "'w session \<Rightarrow> message list \<Rightarrow> 'w \<Rightarrow> disk \<Rightarrow> 'w \<times> disk \<times> session_call list" where
  "send_queued S [] w d = (w, d, [])"
| "send_queued S (msg # rest) w d =
     (case sendMessageToThread S (toThreadId msg) (text_m msg) w of
        (Returned u, w') \<Rightarrow>
          (case send_queued S rest w'
                  (write_back (mark_sent (toISOString_now S w')) (id_m msg) d) of
             (w'', d'', cs) \<Rightarrow> (w'', d'', SendMessage (toThreadId msg) (text_m msg) # cs))
      | (Threw err, w') \<Rightarrow>
          (case send_queued S rest w'
                  (write_back (mark_failed err (toISOString_now S w')) (id_m msg) d) of
             (w'', d'', cs) \<Rightarrow> (w'', d'', SendMessage (toThreadId msg) (text_m msg) # cs)))"

text \<open>How a cycle ends.\<close>

datatype ending =
  NothingQueued
  | SessionError js_error
  | NotLoggedIn
  | Completed

record 'w cycle =
  disk_after :: disk
  world_after :: 'w
  calls :: "session_call list"
  ending :: ending

text \<open>
  \<^verbatim>\<open>processQueueOnce\<close>. An error of \<^verbatim>\<open>ensureBrowser\<close> or of the call of \<^verbatim>\<open>page.evaluate\<close>
  reaches the outer \<^verbatim>\<open>catch\<close> (line 199), which logs it; a rejected promise of
  \<^verbatim>\<open>page.evaluate\<close> becomes \<^verbatim>\<open>false\<close> (line 169).
\<close>

definition processQueueOnce :: "'w session \<Rightarrow> 'w \<Rightarrow> disk \<Rightarrow> 'w cycle" where
  "processQueueOnce S w d =
     (let db = readDb d;
          queued = filter (\<lambda>m. status m = Queued) (messages db)
      in if queued = [] then
           \<lparr>disk_after = d, world_after = w, calls = [], ending = NothingQueued\<rparr>
         else
           (case ensureBrowser S w of
              (Threw e, w1) \<Rightarrow>
                \<lparr>disk_after = d, world_after = w1, calls = [EnsureBrowser],
                 ending = SessionError e\<rparr>
            | (Returned u, w1) \<Rightarrow>
                (case page_evaluate S w1 of
                   CallThrew e \<Rightarrow>
                     \<lparr>disk_after = d, world_after = w1,
                      calls = [EnsureBrowser, PageEvaluate], ending = SessionError e\<rparr>
                 | Rejected e \<Rightarrow>
                     \<lparr>disk_after = d, world_after = w1,
                      calls = [EnsureBrowser, PageEvaluate], ending = NotLoggedIn\<rparr>
                 | Fulfilled isLoggedIn \<Rightarrow>
                     if \<not> isLoggedIn then
                       \<lparr>disk_after = d, world_after = w1,
                        calls = [EnsureBrowser, PageEvaluate], ending = NotLoggedIn\<rparr>
                     else
                       (case send_queued S queued w1 d of
                          (w2, d2, cs) \<Rightarrow>
                            \<lparr>disk_after = d2, world_after = w2,
                             calls = [EnsureBrowser, PageEvaluate] @ cs,
                             ending = Completed\<rparr>))))"

subsection \<open>The lifecycle of a record\<close>

text \<open>
  What the fields of a record look like in each status: a queued record has no timestamp
  of an attempt and no error, a sent record has \<^verbatim>\<open>sentAt\<close> only, a failed record has
  \<^verbatim>\<open>attemptedAt\<close> and \<^verbatim>\<open>lastError\<close>.
\<close>

definition lifecycle_ok :: "message \<Rightarrow> bool" where
  "lifecycle_ok m =
     (case status m of
        Queued \<Rightarrow> sentAt m = None \<and> attemptedAt m = None \<and> lastError m = None
      | Sent \<Rightarrow> sentAt m \<noteq> None \<and> attemptedAt m = None \<and> lastError m = None
      | Failed \<Rightarrow> sentAt m = None \<and> attemptedAt m \<noteq> None \<and> lastError m \<noteq> None)"

text \<open>
  The store is in order when the ids are pairwise different, as \<^verbatim>\<open>uuidv4()\<close> makes them,
  and every record fits its status.
\<close>

definition store_ok :: "queue_state \<Rightarrow> bool" where
  "store_ok db = (distinct (map id_m (messages db)) \<and> list_all lifecycle_ok (messages db))"

text \<open>
  What every write-back leaves behind, whatever the record was before: a sent record has
  \<^verbatim>\<open>sentAt\<close>, a failed record has \<^verbatim>\<open>attemptedAt\<close> and \<^verbatim>\<open>lastError\<close>; a queued record
  has never been written back.
\<close>

definition status_stamped :: "message \<Rightarrow> bool" where
  "status_stamped m =
     (case status m of
        Queued \<Rightarrow> sentAt m = None \<and> attemptedAt m = None \<and> lastError m = None
      | Sent \<Rightarrow> sentAt m \<noteq> None
      | Failed \<Rightarrow> attemptedAt m \<noteq> None \<and> lastError m \<noteq> None)"

subsection \<open>The process: requests and cycles in the order they happen\<close>

text \<open>
  Node runs the handlers and the worker on one thread. A handler runs from its first
  line to its last. A cycle gives way at every \<^verbatim>\<open>await\<close>: after it has read the file and
  kept the queued records (lines 160--161), while the browser is made ready, while the
  login is checked, and during every delivery; the lines from the end of one delivery to
  the start of the next (the write-back) run in one piece. \<^verbatim>\<open>setInterval\<close> (lines 211--213)
  starts a cycle every period whether or not the last one has ended: \<^verbatim>\<open>workerRunning\<close>
  guards \<^verbatim>\<open>startWorker\<close> only.

  The state of the process is the file and, for every cycle that has passed the login
  check and not ended, the records of its \<^verbatim>\<open>queued\<close> array that it has still to write
  back; the first of them is the one being delivered. A cycle that stops before its loop
  changes nothing and is no step.
\<close>

record process =
  disk_of :: disk
  in_flight :: "message list list"

text \<open>
  One step of the process. With \<open>overlap\<close> the steps are those of the source. Without
  it a cycle starts only when every earlier cycle has ended, which the source does not
  ensure. What a delivery returns and what time it is are not determined: every outcome
  is a step. \<^verbatim>\<open>uuidv4()\<close> returns an id that no stored record has.
\<close>

inductive step :: "bool \<Rightarrow> process \<Rightarrow> process \<Rightarrow> bool" for overlap :: bool where
  request_send:
    "uuid \<notin> id_m ` set (messages (readDb (disk_of p))) \<Longrightarrow>
     step overlap p (p\<lparr>disk_of := snd (api_send uuid now body (disk_of p))\<rparr>)"
| request_pair:
    "step overlap p (p\<lparr>disk_of := snd (api_pair ds now (disk_of p))\<rparr>)"
| request_clear:
    "step overlap p (p\<lparr>disk_of := api_clear_queue (disk_of p)\<rparr>)"
| tick:
    "overlap \<or> (\<forall>f \<in> set (in_flight p). f = []) \<Longrightarrow>
     filter (\<lambda>m. status m = Queued) (messages (readDb (disk_of p))) \<noteq> [] \<Longrightarrow>
     step overlap p
       (p\<lparr>in_flight := in_flight p @
            [filter (\<lambda>m. status m = Queued) (messages (readDb (disk_of p)))]\<rparr>)"
| delivered:
    "k < length (in_flight p) \<Longrightarrow> in_flight p ! k = msg # rest \<Longrightarrow>
     step overlap p
       \<lparr>disk_of = write_back (mark_sent now) (id_m msg) (disk_of p),
        in_flight = (in_flight p)[k := rest]\<rparr>"
| not_delivered:
    "k < length (in_flight p) \<Longrightarrow> in_flight p ! k = msg # rest \<Longrightarrow>
     step overlap p
       \<lparr>disk_of = write_back (mark_failed err now) (id_m msg) (disk_of p),
        in_flight = (in_flight p)[k := rest]\<rparr>"

text \<open>
  The states that the process reaches: it starts with no file or with a damaged one,
  and it can be started again at any time (line 28), which drops the cycles that were
  running.
\<close>

inductive reachable :: "bool \<Rightarrow> process \<Rightarrow> bool" for overlap :: bool where
  no_file: "reachable overlap \<lparr>disk_of = None, in_flight = []\<rparr>"
| damaged: "reachable overlap \<lparr>disk_of = Some Garbage, in_flight = []\<rparr>"
| boot: "reachable overlap p \<Longrightarrow>
         reachable overlap \<lparr>disk_of = startup (disk_of p), in_flight = []\<rparr>"
| move: "reachable overlap p \<Longrightarrow> step overlap p p' \<Longrightarrow> reachable overlap p'"

text \<open>
  What holds of the cycles when they do not overlap: the records that a cycle has still
  to write back have different ids and are still queued in the file, if they are there
  at all, and at most one cycle is running.
\<close>

definition flight_ok :: "disk \<Rightarrow> message list \<Rightarrow> bool" where
  "flight_ok d f =
     (distinct (map id_m f) \<and>
      (\<forall>q \<in> set f. \<forall>m \<in> set (messages (readDb d)). id_m m = id_m q \<longrightarrow> status m = Queued))"

definition one_at_a_time :: "message list list \<Rightarrow> bool" where
  "one_at_a_time fl =
     (\<forall>i < length fl. \<forall>j < length fl. i \<noteq> j \<longrightarrow> fl ! i = [] \<or> fl ! j = [])"

definition process_ok :: "process \<Rightarrow> bool" where
  "process_ok p =
     (store_ok (readDb (disk_of p)) \<and>
      (\<forall>f \<in> set (in_flight p). flight_ok (disk_of p) f) \<and>
      one_at_a_time (in_flight p))"

text \<open>The digits of \<open>digits36\<close> in upper case.\<close>

definition uppers36 :: string where
  "uppers36 = ''0123456789ABCDEFGHIJKLMNOPQRSTUVWXYZ''"

subsection \<open>A session and a queue to run the worker on\<close>

text \<open>
  A session that is logged in and delivers to every thread but \<^verbatim>\<open>nobody\<close>, where the
  composer is not found; the same session logged out, or with a login check that is
  rejected; and one whose browser does not start. The world counts the deliveries that
  were tried.
\<close>

definition example_session :: "nat session" where
  "example_session =
     \<lparr>ensureBrowser = (\<lambda>w. (Returned (), w)),
      page_evaluate = (\<lambda>w. Fulfilled True),
      sendMessageToThread =
        (\<lambda>thread body w.
           (if thread = ''nobody''
            then Threw (Error ''Error'' ''Composer not found on thread page'')
            else Returned (), Suc w)),
      toISOString_now = (\<lambda>w. ''2026-01-01T00:00:15.000Z'')\<rparr>"

definition logged_out_session :: "nat session" where
  "logged_out_session = example_session\<lparr>page_evaluate := (\<lambda>w. Fulfilled False)\<rparr>"


definition rejecting_session :: "nat session" where
  "rejecting_session =
     example_session\<lparr>page_evaluate :=
       (\<lambda>w. Rejected (Error ''Error'' ''Execution context was destroyed''))\<rparr>"

text \<open>Two accepted requests on an empty disk, the first of them alone, and their records.\<close>

definition example_disk :: disk where
  "example_disk =
     snd (api_send ''id-2'' ''2026-01-01T00:00:02.000Z''
            \<lparr>body_toThreadId = Some ''nobody'', body_text = Some ''hi'',
             body_senderName = Some ''Aarav''\<rparr>
       (snd (api_send ''id-1'' ''2026-01-01T00:00:01.000Z''
            \<lparr>body_toThreadId = Some ''12345'', body_text = Some ''hello'',
             body_senderName = None\<rparr> None)))"

definition hello_disk :: disk where
  "hello_disk =
     snd (api_send ''id-1'' ''2026-01-01T00:00:01.000Z''
            \<lparr>body_toThreadId = Some ''12345'', body_text = Some ''hello'',
             body_senderName = None\<rparr> None)"

definition queued_hello :: message where
  "queued_hello =
     \<lparr>id_m = ''id-1'', toThreadId = ''12345'', text_m = ''hello'', senderName = None,
      createdAt = ''2026-01-01T00:00:01.000Z'', status = Queued, lastError = None,
      sentAt = None, attemptedAt = None\<rparr>"

definition queued_hi :: message where
  "queued_hi =
     \<lparr>id_m = ''id-2'', toThreadId = ''nobody'', text_m = ''hi'', senderName = Some ''Aarav'',
      createdAt = ''2026-01-01T00:00:02.000Z'', status = Queued, lastError = None,
      sentAt = None, attemptedAt = None\<rparr>"

text \<open>
  A run without overlap on the two records: the cycle starts, the first delivery
  succeeds, the second fails.
\<close>

definition quiet_start :: process where
  "quiet_start = \<lparr>disk_of = example_disk, in_flight = []\<rparr>"

definition quiet_tick :: process where
  "quiet_tick =
     quiet_start\<lparr>in_flight := in_flight quiet_start @
       [filter (\<lambda>m. status m = Queued) (messages (readDb (disk_of quiet_start)))]\<rparr>"

definition quiet_first :: process where
  "quiet_first =
     \<lparr>disk_of = write_back (mark_sent ''2026-01-01T00:00:15.000Z'') (id_m queued_hello)
                  (disk_of quiet_tick),
      in_flight = (in_flight quiet_tick)[0 := [queued_hi]]\<rparr>"

definition quiet_second :: process where
  "quiet_second =
     \<lparr>disk_of = write_back
                  (mark_failed (Error ''Error'' ''Composer not found on thread page'')
                     ''2026-01-01T00:00:16.000Z'')
                  (id_m queued_hi) (disk_of quiet_first),
      in_flight = (in_flight quiet_first)[0 := []]\<rparr>"

text \<open>
  A run with overlap on the first record alone. The delivery of the first cycle takes
  longer than the period, so the second cycle starts and keeps the same record, which is
  still queued. Then both deliveries end, one with a timeout: either the first cycle
  marks the record sent and the second marks it failed, or the other way round.
\<close>

definition timeout_error :: js_error where
  "timeout_error = Error ''TimeoutError'' ''Navigation timeout of 60000 ms exceeded''"

definition race_start :: process where
  "race_start = \<lparr>disk_of = hello_disk, in_flight = []\<rparr>"

definition race_tick1 :: process where
  "race_tick1 =
     race_start\<lparr>in_flight := in_flight race_start @
       [filter (\<lambda>m. status m = Queued) (messages (readDb (disk_of race_start)))]\<rparr>"

definition race_tick2 :: process where
  "race_tick2 =
     race_tick1\<lparr>in_flight := in_flight race_tick1 @
       [filter (\<lambda>m. status m = Queued) (messages (readDb (disk_of race_tick1)))]\<rparr>"

definition race_sent :: process where
  "race_sent =
     \<lparr>disk_of = write_back (mark_sent ''2026-01-01T00:00:20.000Z'') (id_m queued_hello)
                  (disk_of race_tick2),
      in_flight = (in_flight race_tick2)[0 := []]\<rparr>"

definition race_sent_failed :: process where
  "race_sent_failed =
     \<lparr>disk_of = write_back (mark_failed timeout_error ''2026-01-01T00:01:15.000Z'')
                  (id_m queued_hello) (disk_of race_sent),
      in_flight = (in_flight race_sent)[1 := []]\<rparr>"



section \<open>Properties\<close>

subsection \<open>Reading back what was written\<close>

lemma readDb_writeDb: "readDb (writeDb db) = db"
  by (simp add: readDb_def writeDb_def readFileSync_def JSON_parse_def JSON_stringify_def)

lemma readDb_None: "readDb None = empty_state"
  by (simp add: readDb_def readFileSync_def)

lemma readDb_Garbage: "readDb (Some Garbage) = empty_state"
  by (simp add: readDb_def readFileSync_def JSON_parse_def)

lemma readDb_startup: "readDb (startup d) = readDb d"
  by (simp add: startup_def readDb_writeDb readDb_None)

subsection \<open>The write-back\<close>

lemma find_ref_None: "find_ref P xs = None \<longleftrightarrow> (\<forall>x \<in> set xs. \<not> P x)"
  by (induction xs) (auto split: option.splits)

lemma find_ref_Some: "find_ref P xs = Some i \<Longrightarrow> i < length xs \<and> P (xs ! i)"
proof (induction xs arbitrary: i)
  case Nil
  then show ?case by simp
next
  case (Cons x xs)
  then show ?case by (auto split: if_splits option.splits)
qed

lemma update_unique_is_map:
  assumes "distinct (map f xs)" and "i < length xs" and "f (xs ! i) = k"
  shows "xs[i := g (xs ! i)] = map (\<lambda>m. if f m = k then g m else m) xs"
proof (rule nth_equalityI)
  show "length (xs[i := g (xs ! i)]) = length (map (\<lambda>m. if f m = k then g m else m) xs)"
    by simp
next
  fix j
  assume "j < length (xs[i := g (xs ! i)])"
  then have j: "j < length xs" by simp
  show "xs[i := g (xs ! i)] ! j = map (\<lambda>m. if f m = k then g m else m) xs ! j"
  proof (cases "j = i")
    case True
    with assms show ?thesis by simp
  next
    case False
    have "map f xs ! j \<noteq> map f xs ! i"
      using assms(1) j assms(2) False by (simp add: nth_eq_iff_index_eq del: nth_map)
    then have "f (xs ! j) \<noteq> k" using j assms(2,3) by simp
    with False j show ?thesis by simp
  qed
qed

lemma write_back_messages:
  assumes "distinct (map id_m (messages (readDb d)))"
  shows "messages (readDb (write_back g k d)) =
           map (\<lambda>m. if id_m m = k then g m else m) (messages (readDb d))"
proof (cases "find_ref (\<lambda>m. id_m m = k) (messages (readDb d))")
  case None
  then have "\<forall>m \<in> set (messages (readDb d)). id_m m \<noteq> k"
    by (simp add: find_ref_None)
  then have "map (\<lambda>m. if id_m m = k then g m else m) (messages (readDb d)) = messages (readDb d)"
    by (simp add: map_idI)
  with None show ?thesis by (simp add: write_back_def)
next
  case (Some i)
  from find_ref_Some [OF Some] have "i < length (messages (readDb d))"
    and "id_m (messages (readDb d) ! i) = k" by simp_all
  from update_unique_is_map [OF assms this]
  show ?thesis using Some by (simp add: write_back_def Let_def readDb_writeDb)
qed

lemma write_back_pairings: "pairings (readDb (write_back g k d)) = pairings (readDb d)"
  by (cases "find_ref (\<lambda>m. id_m m = k) (messages (readDb d))")
     (simp_all add: write_back_def Let_def readDb_writeDb)

lemma id_m_mark_sent: "id_m (mark_sent t m) = id_m m"
  by (simp add: mark_sent_def)

lemma id_m_mark_failed: "id_m (mark_failed e t m) = id_m m"
  by (simp add: mark_failed_def)

subsection \<open>The loop over the queued records\<close>

lemma send_queued_step:
  "\<exists>g w'. ((\<exists>t. g = mark_sent t) \<or> (\<exists>e t. g = mark_failed e t)) \<and>
      fst (snd (send_queued S (q # rest) w d)) =
        fst (snd (send_queued S rest w' (write_back g (id_m q) d)))"
proof (cases "sendMessageToThread S (toThreadId q) (text_m q) w")
  case (Pair out w')
  show ?thesis
  proof (cases out)
    case (Returned u)
    with Pair have "fst (snd (send_queued S (q # rest) w d)) =
        fst (snd (send_queued S rest w'
          (write_back (mark_sent (toISOString_now S w')) (id_m q) d)))"
      by (simp split: prod.splits)
    then show ?thesis by blast
  next
    case (Threw err)
    with Pair have "fst (snd (send_queued S (q # rest) w d)) =
        fst (snd (send_queued S rest w'
          (write_back (mark_failed err (toISOString_now S w')) (id_m q) d)))"
      by (simp split: prod.splits)
    then show ?thesis by blast
  qed
qed

lemma send_queued_effect:
  assumes "distinct (map id_m qs)" and "distinct (map id_m (messages (readDb d)))"
  shows "\<exists>h. messages (readDb (fst (snd (send_queued S qs w d)))) = map h (messages (readDb d))
           \<and> (\<forall>m. id_m (h m) = id_m m)
           \<and> (\<forall>m. id_m m \<notin> id_m ` set qs \<longrightarrow> h m = m)
           \<and> (\<forall>m. id_m m \<in> id_m ` set qs \<longrightarrow>
                 (\<exists>t. h m = mark_sent t m) \<or> (\<exists>e t. h m = mark_failed e t m))"
  using assms
proof (induction qs arbitrary: w d)
  case Nil
  have "messages (readDb d) = map (\<lambda>m. m) (messages (readDb d))" by simp
  then show ?case by (intro exI [of _ "\<lambda>m. m"]) simp
next
  case (Cons q rest)
  from send_queued_step [of S q rest w d] obtain g w' where
    g: "(\<exists>t. g = mark_sent t) \<or> (\<exists>e t. g = mark_failed e t)" and
    unfold: "fst (snd (send_queued S (q # rest) w d)) =
               fst (snd (send_queued S rest w' (write_back g (id_m q) d)))"
    by blast
  define h1 where "h1 = (\<lambda>m. if id_m m = id_m q then g m else m)"
  define d1 where "d1 = write_back g (id_m q) d"
  have g_id: "id_m (g m) = id_m m" for m
    using g by (auto simp: id_m_mark_sent id_m_mark_failed)
  have h1_id: "id_m (h1 m) = id_m m" for m
    by (simp add: h1_def g_id)
  have msgs1: "messages (readDb d1) = map h1 (messages (readDb d))"
    unfolding d1_def h1_def using Cons.prems(2) by (rule write_back_messages)
  have "map id_m (messages (readDb d1)) = map id_m (messages (readDb d))"
    by (simp add: msgs1 h1_id)
  with Cons.prems have dist1: "distinct (map id_m (messages (readDb d1)))"
    and distr: "distinct (map id_m rest)" and notin: "id_m q \<notin> id_m ` set rest"
    by auto
  from Cons.IH [OF distr dist1, of w'] obtain h2 where
    h2: "messages (readDb (fst (snd (send_queued S rest w' d1)))) = map h2 (messages (readDb d1))"
    and h2_id: "\<And>m. id_m (h2 m) = id_m m"
    and h2_out: "\<And>m. id_m m \<notin> id_m ` set rest \<Longrightarrow> h2 m = m"
    and h2_in: "\<And>m. id_m m \<in> id_m ` set rest \<Longrightarrow>
                 (\<exists>t. h2 m = mark_sent t m) \<or> (\<exists>e t. h2 m = mark_failed e t m)"
    by blast
  let ?h = "\<lambda>m. h2 (h1 m)"
  have a: "messages (readDb (fst (snd (send_queued S (q # rest) w d)))) =
             map ?h (messages (readDb d))"
    using unfold h2 msgs1 by (simp add: d1_def)
  have b: "\<forall>m. id_m (?h m) = id_m m" by (simp add: h2_id h1_id)
  have c: "\<forall>m. id_m m \<notin> id_m ` set (q # rest) \<longrightarrow> ?h m = m"
    by (simp add: h1_def h2_out)
  have d: "\<forall>m. id_m m \<in> id_m ` set (q # rest) \<longrightarrow>
            (\<exists>t. ?h m = mark_sent t m) \<or> (\<exists>e t. ?h m = mark_failed e t m)"
  proof (intro allI impI)
    fix m :: message
    assume "id_m m \<in> id_m ` set (q # rest)"
    then consider "id_m m = id_m q" | "id_m m \<noteq> id_m q" "id_m m \<in> id_m ` set rest"
      by auto
    then show "(\<exists>t. ?h m = mark_sent t m) \<or> (\<exists>e t. ?h m = mark_failed e t m)"
    proof cases
      case 1
      then have "id_m (g m) \<notin> id_m ` set rest" using notin by (simp add: g_id)
      then have "?h m = g m" using 1 by (simp add: h1_def h2_out)
      with g show ?thesis by auto
    next
      case 2
      then have "?h m = h2 m" by (simp add: h1_def)
      with h2_in [OF 2(2)] show ?thesis by simp
    qed
  qed
  from a b c d show ?case by blast
qed

lemma send_queued_pairings:
  "pairings (readDb (fst (snd (send_queued S qs w d)))) = pairings (readDb d)"
proof (induction qs arbitrary: w d)
  case Nil
  show ?case by simp
next
  case (Cons q rest)
  from send_queued_step [of S q rest w d] obtain g w' where
    "fst (snd (send_queued S (q # rest) w d)) =
       fst (snd (send_queued S rest w' (write_back g (id_m q) d)))"
    by blast
  then show ?case by (simp add: Cons.IH write_back_pairings)
qed


lemma send_queued_skips_missing:
  assumes "\<forall>m \<in> set qs. id_m m \<notin> id_m ` set (messages (readDb d))"
  shows "fst (snd (send_queued S qs w d)) = d"
  using assms
proof (induction qs arbitrary: w)
  case Nil
  show ?case by simp
next
  case (Cons q rest)
  then have "\<forall>x \<in> set (messages (readDb d)). id_m x \<noteq> id_m q"
    by (metis image_eqI list.set_intros(1))
  then have "find_ref (\<lambda>m. id_m m = id_m q) (messages (readDb d)) = None"
    by (simp add: find_ref_None)
  then have skip: "write_back g (id_m q) d = d" for g
    by (simp add: write_back_def)
  from send_queued_step [of S q rest w d] obtain g w' where
    "fst (snd (send_queued S (q # rest) w d)) =
       fst (snd (send_queued S rest w' (write_back g (id_m q) d)))"
    by blast
  with Cons skip show ?case by simp
qed

subsection \<open>One cycle\<close>

lemma processQueueOnce_cases:
  "(disk_after (processQueueOnce S w d) = d \<and> ending (processQueueOnce S w d) \<noteq> Completed) \<or>
   (ending (processQueueOnce S w d) = Completed \<and>
    (\<exists>w1. disk_after (processQueueOnce S w d) =
       fst (snd (send_queued S (filter (\<lambda>m. status m = Queued) (messages (readDb d))) w1 d))))"
proof (cases "filter (\<lambda>m. status m = Queued) (messages (readDb d)) = []")
  case True
  then show ?thesis by (simp add: processQueueOnce_def)
next
  case False
  obtain out w1 where eb: "ensureBrowser S w = (out, w1)" by (cases "ensureBrowser S w")
  show ?thesis
  proof (cases out)
    case (Threw e)
    with False eb show ?thesis by (simp add: processQueueOnce_def)
  next
    case (Returned u)
    show ?thesis
    proof (cases "page_evaluate S w1")
      case (CallThrew e)
      with False eb Returned show ?thesis by (simp add: processQueueOnce_def)
    next
      case (Rejected e)
      with False eb Returned show ?thesis by (simp add: processQueueOnce_def)
    next
      case (Fulfilled b)
      with False eb Returned show ?thesis
        by (cases b) (auto simp: processQueueOnce_def Let_def case_prod_beta)
    qed
  qed
qed

lemma settled_id_not_queued:
  assumes "distinct (map id_m ms)" and "m \<in> set ms" and "status m \<noteq> Queued"
  shows "id_m m \<notin> id_m ` set (filter (\<lambda>m. status m = Queued) ms)"
proof
  assume "id_m m \<in> id_m ` set (filter (\<lambda>m. status m = Queued) ms)"
  then obtain q where q: "q \<in> set ms" "status q = Queued" "id_m q = id_m m" by auto
  from assms(1) have "inj_on id_m (set ms)" by (simp add: distinct_map)
  with q assms(2) have "q = m" by (auto dest: inj_onD)
  with q assms(3) show False by simp
qed

lemma processQueueOnce_effect:
  assumes "distinct (map id_m (messages (readDb d)))"
  shows "\<exists>h. messages (readDb (disk_after (processQueueOnce S w d))) =
               map h (messages (readDb d))
           \<and> (\<forall>m. id_m (h m) = id_m m)
           \<and> (\<forall>m \<in> set (messages (readDb d)). status m \<noteq> Queued \<longrightarrow> h m = m)
           \<and> (\<forall>m \<in> set (messages (readDb d)). status m = Queued \<longrightarrow>
                 (if ending (processQueueOnce S w d) = Completed
                  then (\<exists>t. h m = mark_sent t m) \<or> (\<exists>e t. h m = mark_failed e t m)
                  else h m = m))"
proof -
  let ?r = "processQueueOnce S w d"
  let ?ms = "messages (readDb d)"
  let ?qs = "filter (\<lambda>m. status m = Queued) ?ms"
  from processQueueOnce_cases [of S w d] show ?thesis
  proof (elim disjE conjE exE)
    assume "disk_after ?r = d" and "ending ?r \<noteq> Completed"
    then show ?thesis by (intro exI [of _ "\<lambda>m. m"]) simp
  next
    fix w1
    assume compl: "ending ?r = Completed"
      and disk: "disk_after ?r = fst (snd (send_queued S ?qs w1 d))"
    have "distinct (map id_m ?qs)" using assms by (rule distinct_map_filter)
    from send_queued_effect [OF this assms, of S w1] obtain h where
      h: "messages (readDb (fst (snd (send_queued S ?qs w1 d)))) = map h ?ms"
      and h_id: "\<And>m. id_m (h m) = id_m m"
      and h_out: "\<And>m. id_m m \<notin> id_m ` set ?qs \<Longrightarrow> h m = m"
      and h_in: "\<And>m. id_m m \<in> id_m ` set ?qs \<Longrightarrow>
                  (\<exists>t. h m = mark_sent t m) \<or> (\<exists>e t. h m = mark_failed e t m)"
      by blast
    have "\<forall>m \<in> set ?ms. status m \<noteq> Queued \<longrightarrow> h m = m"
      using settled_id_not_queued [OF assms] h_out by blast
    moreover have "\<forall>m \<in> set ?ms. status m = Queued \<longrightarrow>
        (\<exists>t. h m = mark_sent t m) \<or> (\<exists>e t. h m = mark_failed e t m)"
    proof (intro ballI impI)
      fix m assume "m \<in> set ?ms" "status m = Queued"
      then have "id_m m \<in> id_m ` set ?qs" by auto
      then show "(\<exists>t. h m = mark_sent t m) \<or> (\<exists>e t. h m = mark_failed e t m)"
        by (rule h_in)
    qed
    ultimately show ?thesis using h h_id compl disk
      by (intro exI [of _ h]) simp
  qed
qed

lemma processQueueOnce_pairings:
  "pairings (readDb (disk_after (processQueueOnce S w d))) = pairings (readDb d)"
  using processQueueOnce_cases [of S w d] by (auto simp: send_queued_pairings)

subsection \<open>The handlers\<close>

lemma api_send_accepts:
  assumes "\<not> falsy (body_toThreadId body)" and "\<not> falsy (body_text body)"
  shows "api_send uuid now body d =
    (SendOk uuid,
     writeDb ((readDb d)\<lparr>messages := messages (readDb d) @
       [\<lparr>id_m = uuid, toThreadId = the (body_toThreadId body), text_m = the (body_text body),
         senderName = (if falsy (body_senderName body) then None else body_senderName body),
         createdAt = now, status = Queued, lastError = None, sentAt = None,
         attemptedAt = None\<rparr>]\<rparr>))"
  using assms by (simp add: api_send_def Let_def)

lemma api_send_rejects:
  assumes "falsy (body_toThreadId body) \<or> falsy (body_text body)"
  shows "api_send uuid now body d = (Status400 ''toThreadId and text required'', d)"
  using assms by (simp add: api_send_def)

lemma other_operations_keep_pairings:
  "pairings (readDb (snd (api_send uuid now body d))) = pairings (readDb d)"
  "pairings (readDb (api_clear_queue d)) = pairings (readDb d)"
  "pairings (readDb (disk_after (processQueueOnce S w d))) = pairings (readDb d)"
proof -
  show "pairings (readDb (snd (api_send uuid now body d))) = pairings (readDb d)"
    by (cases "falsy (body_toThreadId body) \<or> falsy (body_text body)")
       (simp_all add: api_send_rejects api_send_accepts readDb_writeDb)
  show "pairings (readDb (api_clear_queue d)) = pairings (readDb d)"
    by (simp add: api_clear_queue_def Let_def readDb_writeDb)
  show "pairings (readDb (disk_after (processQueueOnce S w d))) = pairings (readDb d)"
    by (rule processQueueOnce_pairings)
qed

subsection \<open>Stores in order\<close>

lemma store_ok_empty: "store_ok empty_state"
  by (simp add: store_ok_def empty_state_def)

lemma store_ok_api_send:
  assumes "store_ok (readDb d)" and "uuid \<notin> id_m ` set (messages (readDb d))"
  shows "store_ok (readDb (snd (api_send uuid now body d)))"
proof (cases "falsy (body_toThreadId body) \<or> falsy (body_text body)")
  case True
  then show ?thesis using assms(1) by (simp add: api_send_rejects)
next
  case False
  then show ?thesis using assms
    by (simp add: api_send_accepts readDb_writeDb store_ok_def lifecycle_ok_def)
qed

lemma store_ok_api_pair: "store_ok (readDb d) \<Longrightarrow> store_ok (readDb (snd (api_pair ds now d)))"
  by (simp add: api_pair_def Let_def readDb_writeDb store_ok_def)

lemma store_ok_api_clear_queue: "store_ok (readDb (api_clear_queue d))"
  by (simp add: api_clear_queue_def Let_def readDb_writeDb store_ok_def)

lemma lifecycle_ok_mark_sent:
  "lifecycle_ok m \<Longrightarrow> status m = Queued \<Longrightarrow> lifecycle_ok (mark_sent t m)"
  by (simp add: lifecycle_ok_def mark_sent_def)

lemma lifecycle_ok_mark_failed:
  "lifecycle_ok m \<Longrightarrow> status m = Queued \<Longrightarrow> lifecycle_ok (mark_failed e t m)"
  by (simp add: lifecycle_ok_def mark_failed_def)

lemma store_ok_write_back:
  assumes "store_ok (readDb d)" and "m \<in> set (messages (readDb d))" and "status m = Queued"
    and "\<And>x. id_m (g x) = id_m x"
    and "\<And>x. lifecycle_ok x \<Longrightarrow> status x = Queued \<Longrightarrow> lifecycle_ok (g x)"
  shows "store_ok (readDb (write_back g (id_m m) d))"
proof -
  let ?ms = "messages (readDb d)"
  let ?h = "\<lambda>x. if id_m x = id_m m then g x else x"
  from assms(1) have dist: "distinct (map id_m ?ms)" and ok: "\<forall>x \<in> set ?ms. lifecycle_ok x"
    by (simp_all add: store_ok_def list_all_iff)
  have msgs: "messages (readDb (write_back g (id_m m) d)) = map ?h ?ms"
    using dist by (rule write_back_messages)
  have ids: "map id_m (map ?h ?ms) = map id_m ?ms" by (simp add: assms(4))
  have dist': "distinct (map id_m (map ?h ?ms))" using dist by (simp only: ids)
  have step: "lifecycle_ok (?h x)" if x: "x \<in> set ?ms" for x
  proof (cases "id_m x = id_m m")
    case True
    from dist have "inj_on id_m (set ?ms)" by (simp add: distinct_map)
    with True x assms(2) have "x = m" by (auto dest: inj_onD)
    with ok x assms(3) assms(5) True show ?thesis by simp
  next
    case False
    with ok x show ?thesis by simp
  qed
  have "list_all lifecycle_ok (map ?h ?ms)"
    unfolding list_all_iff
  proof
    fix y
    assume "y \<in> set (map ?h ?ms)"
    then obtain x where x: "x \<in> set ?ms" and y: "y = ?h x" unfolding set_map by blast
    from step [OF x] show "lifecycle_ok y" by (simp only: y)
  qed
  with dist' show ?thesis by (simp only: store_ok_def msgs)
qed

lemma store_ok_processQueueOnce:
  assumes "store_ok (readDb d)"
  shows "store_ok (readDb (disk_after (processQueueOnce S w d)))"
proof -
  let ?ms = "messages (readDb d)"
  from assms have dist: "distinct (map id_m ?ms)" and ok: "\<forall>m \<in> set ?ms. lifecycle_ok m"
    by (simp_all add: store_ok_def list_all_iff)
  from processQueueOnce_effect [OF dist, of S w] obtain h where
    h: "messages (readDb (disk_after (processQueueOnce S w d))) = map h ?ms"
    and h_id: "\<And>m. id_m (h m) = id_m m"
    and h_settled: "\<And>m. m \<in> set ?ms \<Longrightarrow> status m \<noteq> Queued \<Longrightarrow> h m = m"
    and h_queued: "\<And>m. m \<in> set ?ms \<Longrightarrow> status m = Queued \<Longrightarrow>
        (if ending (processQueueOnce S w d) = Completed
         then (\<exists>t. h m = mark_sent t m) \<or> (\<exists>e t. h m = mark_failed e t m)
         else h m = m)"
    by blast
  have ids: "map id_m (map h ?ms) = map id_m ?ms" by (simp add: h_id)
  have "distinct (map id_m (map h ?ms))" using dist by (simp only: ids)
  moreover have "lifecycle_ok (h m)" if m: "m \<in> set ?ms" for m
  proof (cases "status m = Queued")
    case True
    from ok m have "lifecycle_ok m" by simp
    with h_queued [OF m True] True show ?thesis
      by (auto split: if_splits simp: lifecycle_ok_mark_sent lifecycle_ok_mark_failed)
  next
    case False
    with h_settled [OF m] ok m show ?thesis by simp
  qed
  ultimately show ?thesis by (simp add: store_ok_def h list_all_iff)
qed

subsection \<open>What a cycle calls and how it ends\<close>



subsection \<open>Every state of the process\<close>

lemma status_stamped_mark_sent: "status_stamped (mark_sent t m)"
  by (simp add: status_stamped_def mark_sent_def)

lemma status_stamped_mark_failed: "status_stamped (mark_failed e t m)"
  by (simp add: status_stamped_def mark_failed_def)

lemma write_back_set:
  "set (messages (readDb (write_back g k d))) \<subseteq>
     set (messages (readDb d)) \<union> g ` set (messages (readDb d))"
proof (cases "find_ref (\<lambda>m. id_m m = k) (messages (readDb d))")
  case None
  then show ?thesis by (simp add: write_back_def)
next
  case (Some i)
  from find_ref_Some [OF Some] have i: "i < length (messages (readDb d))" by simp
  have "set ((messages (readDb d))[i := g (messages (readDb d) ! i)]) \<subseteq>
          insert (g (messages (readDb d) ! i)) (set (messages (readDb d)))"
    by (rule set_update_subset_insert)
  moreover have "g (messages (readDb d) ! i) \<in> g ` set (messages (readDb d))"
    using i by simp
  ultimately show ?thesis using Some
    by (auto simp: write_back_def Let_def readDb_writeDb)
qed

lemma stamped_write_back:
  assumes "\<forall>m \<in> set (messages (readDb d)). status_stamped m" and "\<And>x. status_stamped (g x)"
  shows "\<forall>m \<in> set (messages (readDb (write_back g k d))). status_stamped m"
proof
  fix m
  assume "m \<in> set (messages (readDb (write_back g k d)))"
  with write_back_set [of g k d]
  have "m \<in> set (messages (readDb d)) \<or> m \<in> g ` set (messages (readDb d))" by blast
  then show "status_stamped m" using assms by blast
qed

lemma stamped_api_send:
  assumes "\<forall>m \<in> set (messages (readDb d)). status_stamped m"
  shows "\<forall>m \<in> set (messages (readDb (snd (api_send uuid now body d)))). status_stamped m"
proof (cases "falsy (body_toThreadId body) \<or> falsy (body_text body)")
  case True
  then show ?thesis using assms by (simp add: api_send_rejects)
next
  case False
  then show ?thesis using assms
    by (auto simp: api_send_accepts readDb_writeDb status_stamped_def)
qed

lemma stamped_step:
  assumes "step overlap p p'" and "\<forall>m \<in> set (messages (readDb (disk_of p))). status_stamped m"
  shows "\<forall>m \<in> set (messages (readDb (disk_of p'))). status_stamped m"
  using assms
proof (cases rule: step.cases)
  case (request_send uuid now body)
  with assms(2) show ?thesis by (simp add: stamped_api_send)
next
  case (request_pair ds now)
  with assms(2) show ?thesis by (simp add: api_pair_def Let_def readDb_writeDb)
next
  case request_clear
  then show ?thesis by (simp add: api_clear_queue_def Let_def readDb_writeDb)
next
  case tick
  with assms(2) show ?thesis by simp
next
  case (delivered k msg rest now)
  have "\<forall>m \<in> set (messages (readDb (write_back (mark_sent now) (id_m msg) (disk_of p)))).
          status_stamped m"
    using assms(2) by (rule stamped_write_back) (rule status_stamped_mark_sent)
  with delivered show ?thesis by simp
next
  case (not_delivered k msg rest err now)
  have "\<forall>m \<in> set (messages (readDb (write_back (mark_failed err now) (id_m msg) (disk_of p)))).
          status_stamped m"
    using assms(2) by (rule stamped_write_back) (rule status_stamped_mark_failed)
  with not_delivered show ?thesis by simp
qed

lemma reachable_stamped:
  "reachable overlap p \<Longrightarrow> \<forall>m \<in> set (messages (readDb (disk_of p))). status_stamped m"
proof (induction rule: reachable.induct)
  case no_file
  show ?case by (simp add: readDb_None empty_state_def)
next
  case damaged
  show ?case by (simp add: readDb_Garbage empty_state_def)
next
  case (boot p)
  then show ?case by (simp add: readDb_startup)
next
  case (move p p')
  then show ?case using stamped_step by blast
qed

lemma write_back_absent:
  assumes "\<forall>m \<in> set (messages (readDb d)). id_m m \<noteq> k"
  shows "write_back g k d = d"
proof -
  from assms have "find_ref (\<lambda>m. id_m m = k) (messages (readDb d)) = None"
    by (simp add: find_ref_None)
  then show ?thesis by (simp add: write_back_def)
qed

lemma api_send_messages:
  "messages (readDb (snd (api_send uuid now body d))) = messages (readDb d) \<or>
   (\<exists>item. messages (readDb (snd (api_send uuid now body d))) = messages (readDb d) @ [item] \<and>
      status item = Queued)"
proof (cases "falsy (body_toThreadId body) \<or> falsy (body_text body)")
  case True
  then show ?thesis by (simp add: api_send_rejects)
next
  case False
  then show ?thesis by (simp add: api_send_accepts readDb_writeDb)
qed

lemma api_pair_messages: "messages (readDb (snd (api_pair ds now d))) = messages (readDb d)"
  by (simp add: api_pair_def Let_def readDb_writeDb)

lemma api_clear_queue_messages: "messages (readDb (api_clear_queue d)) = []"
  by (simp add: api_clear_queue_def Let_def readDb_writeDb)

lemma write_back_ids:
  assumes "\<And>x. id_m (g x) = id_m x"
  shows "map id_m (messages (readDb (write_back g k d))) = map id_m (messages (readDb d))"
proof (cases "find_ref (\<lambda>m. id_m m = k) (messages (readDb d))")
  case None
  then show ?thesis by (simp add: write_back_def)
next
  case (Some i)
  from find_ref_Some [OF Some] have i: "i < length (messages (readDb d))" by simp
  have "(map id_m (messages (readDb d)))[i := map id_m (messages (readDb d)) ! i] =
          map id_m (messages (readDb d))"
    by (rule list_update_id)
  with i have "map id_m ((messages (readDb d))[i := g (messages (readDb d) ! i)]) =
          map id_m (messages (readDb d))"
    by (simp add: map_update assms)
  with Some show ?thesis by (simp add: write_back_def Let_def readDb_writeDb)
qed

lemma distinct_ids_api_send:
  assumes "distinct (map id_m (messages (readDb d)))"
    and "uuid \<notin> id_m ` set (messages (readDb d))"
  shows "distinct (map id_m (messages (readDb (snd (api_send uuid now body d)))))"
proof (cases "falsy (body_toThreadId body) \<or> falsy (body_text body)")
  case True
  then show ?thesis using assms(1) by (simp add: api_send_rejects)
next
  case False
  then show ?thesis using assms by (simp add: api_send_accepts readDb_writeDb)
qed

lemma distinct_ids_step:
  assumes "step overlap p p'" and "distinct (map id_m (messages (readDb (disk_of p))))"
  shows "distinct (map id_m (messages (readDb (disk_of p'))))"
  using assms(1)
proof (cases rule: step.cases)
  case (request_send uuid now body)
  with assms(2) show ?thesis by (simp add: distinct_ids_api_send)
next
  case (request_pair ds now)
  with assms(2) show ?thesis by (simp add: api_pair_messages)
next
  case request_clear
  then show ?thesis by (simp add: api_clear_queue_messages)
next
  case tick
  with assms(2) show ?thesis by simp
next
  case (delivered k msg rest now)
  with assms(2) show ?thesis by (simp add: write_back_ids id_m_mark_sent)
next
  case (not_delivered k msg rest err now)
  with assms(2) show ?thesis by (simp add: write_back_ids id_m_mark_failed)
qed

lemma reachable_distinct_ids:
  "reachable overlap p \<Longrightarrow> distinct (map id_m (messages (readDb (disk_of p))))"
proof (induction rule: reachable.induct)
  case no_file
  show ?case by (simp add: readDb_None empty_state_def)
next
  case damaged
  show ?case by (simp add: readDb_Garbage empty_state_def)
next
  case (boot p)
  then show ?case by (simp add: readDb_startup)
next
  case (move p p')
  then show ?case using distinct_ids_step by blast
qed

subsection \<open>The process without overlap\<close>

lemma store_ok_write_back_queued:
  assumes ok: "store_ok (readDb d)"
    and queued: "\<forall>m \<in> set (messages (readDb d)). id_m m = k \<longrightarrow> status m = Queued"
    and g_id: "\<And>x. id_m (g x) = id_m x"
    and g_ok: "\<And>x. lifecycle_ok x \<Longrightarrow> status x = Queued \<Longrightarrow> lifecycle_ok (g x)"
  shows "store_ok (readDb (write_back g k d))"
proof (cases "\<exists>m \<in> set (messages (readDb d)). id_m m = k")
  case False
  then have "write_back g k d = d" by (intro write_back_absent) blast
  with ok show ?thesis by simp
next
  case True
  then obtain m where m: "m \<in> set (messages (readDb d))" and k: "k = id_m m" by blast
  with queued have "status m = Queued" by simp
  from store_ok_write_back [OF ok m this g_id g_ok] show ?thesis by (simp add: k)
qed

lemma flight_ok_same_messages:
  "messages (readDb d') = messages (readDb d) \<Longrightarrow> flight_ok d f \<Longrightarrow> flight_ok d' f"
  by (simp add: flight_ok_def)

lemma flight_ok_api_send:
  assumes "flight_ok d f"
  shows "flight_ok (snd (api_send uuid now body d)) f"
  using assms api_send_messages [of uuid now body d]
  by (auto simp: flight_ok_def)

lemma flight_ok_cleared: "flight_ok d f \<Longrightarrow> flight_ok (api_clear_queue d) f"
  by (simp add: flight_ok_def api_clear_queue_messages)

lemma flight_ok_Nil: "flight_ok d []"
  by (simp add: flight_ok_def)

lemma flight_ok_snapshot:
  assumes "distinct (map id_m (messages (readDb d)))"
  shows "flight_ok d (filter (\<lambda>m. status m = Queued) (messages (readDb d)))"
proof -
  from assms have inj: "inj_on id_m (set (messages (readDb d)))" by (simp add: distinct_map)
  have "status m = Queued"
    if "q \<in> set (messages (readDb d))" "status q = Queued" "m \<in> set (messages (readDb d))"
       "id_m m = id_m q" for q m
    using inj that by (auto dest: inj_onD)
  moreover have "distinct (map id_m (filter (\<lambda>m. status m = Queued) (messages (readDb d))))"
    using assms by (rule distinct_map_filter)
  ultimately show ?thesis unfolding flight_ok_def by auto
qed

lemma flight_ok_write_back:
  assumes dist: "distinct (map id_m (messages (readDb d)))"
    and fl: "flight_ok d (msg # rest)"
    and g_id: "\<And>x. id_m (g x) = id_m x"
  shows "flight_ok (write_back g (id_m msg) d) rest"
proof -
  let ?h = "\<lambda>x. if id_m x = id_m msg then g x else x"
  have msgs: "messages (readDb (write_back g (id_m msg) d)) = map ?h (messages (readDb d))"
    using dist by (rule write_back_messages)
  from fl have d_rest: "distinct (map id_m rest)" and notin: "id_m msg \<notin> id_m ` set rest"
    and queued: "\<And>q m. q \<in> set rest \<Longrightarrow> m \<in> set (messages (readDb d)) \<Longrightarrow>
                   id_m m = id_m q \<Longrightarrow> status m = Queued"
    by (auto simp: flight_ok_def)
  have "status m' = Queued"
    if q: "q \<in> set rest" and m': "m' \<in> set (map ?h (messages (readDb d)))"
      and eq: "id_m m' = id_m q" for q m'
  proof -
    from m' obtain m where m: "m \<in> set (messages (readDb d))" and m'_def: "m' = ?h m"
      unfolding set_map by blast
    have "id_m m' = id_m m" by (simp add: m'_def g_id)
    with eq have idm: "id_m m = id_m q" by simp
    with q notin have "id_m m \<noteq> id_m msg" by force
    then have "m' = m" by (simp add: m'_def)
    with queued [OF q m idm] show ?thesis by simp
  qed
  with d_rest show ?thesis unfolding flight_ok_def msgs by blast
qed

lemma one_at_a_time_update:
  assumes "one_at_a_time fl" and "k < length fl" and "fl ! k \<noteq> []"
  shows "one_at_a_time (fl[k := rest])"
  unfolding one_at_a_time_def
proof (intro allI impI)
  fix i j
  assume i: "i < length (fl[k := rest])" and j: "j < length (fl[k := rest])" and ne: "i \<noteq> j"
  have others: "fl ! n = []" if "n < length fl" "n \<noteq> k" for n
    using assms that unfolding one_at_a_time_def by blast
  from ne have "i \<noteq> k \<or> j \<noteq> k" by blast
  then show "fl[k := rest] ! i = [] \<or> fl[k := rest] ! j = []"
    using others i j by auto
qed

lemma one_at_a_time_tick:
  assumes "\<forall>f \<in> set fl. f = []"
  shows "one_at_a_time (fl @ [qs])"
  unfolding one_at_a_time_def
proof (intro allI impI)
  fix i j
  assume i: "i < length (fl @ [qs])" and j: "j < length (fl @ [qs])" and ne: "i \<noteq> j"
  from i j ne have "i < length fl \<or> j < length fl" by auto
  then show "(fl @ [qs]) ! i = [] \<or> (fl @ [qs]) ! j = []"
    using assms by (auto simp: nth_append)
qed

lemma others_ended:
  assumes "one_at_a_time fl" and "k < length fl" and "fl ! k \<noteq> []"
    and "f \<in> set (fl[k := rest])"
  shows "f = rest \<or> f = []"
proof -
  from assms(4) obtain n where n: "n < length fl" and f: "f = fl[k := rest] ! n"
    by (auto simp: in_set_conv_nth)
  show ?thesis
  proof (cases "n = k")
    case True
    with n f show ?thesis by simp
  next
    case False
    with assms(1-3) n have "fl ! n = []" unfolding one_at_a_time_def by blast
    with False f show ?thesis by simp
  qed
qed

lemma process_ok_step:
  assumes "step False p p'" and ok: "process_ok p"
  shows "process_ok p'"
  using assms(1)
proof (cases rule: step.cases)
  case (request_send uuid now body)
  from ok have "store_ok (readDb (snd (api_send uuid now body (disk_of p))))"
    using request_send(2) by (simp add: process_ok_def store_ok_api_send)
  moreover have "\<forall>f \<in> set (in_flight p). flight_ok (snd (api_send uuid now body (disk_of p))) f"
    using ok by (simp add: process_ok_def flight_ok_api_send)
  ultimately show ?thesis using ok request_send(1) by (simp add: process_ok_def)
next
  case (request_pair ds now)
  have "\<forall>f \<in> set (in_flight p). flight_ok (snd (api_pair ds now (disk_of p))) f"
    using ok flight_ok_same_messages [OF api_pair_messages] by (auto simp: process_ok_def)
  then show ?thesis using ok request_pair by (simp add: process_ok_def store_ok_api_pair)
next
  case request_clear
  have "\<forall>f \<in> set (in_flight p). flight_ok (api_clear_queue (disk_of p)) f"
    using ok by (simp add: process_ok_def flight_ok_cleared)
  then show ?thesis using ok request_clear
    by (simp add: process_ok_def store_ok_api_clear_queue)
next
  case tick
  from ok have "distinct (map id_m (messages (readDb (disk_of p))))"
    by (simp add: process_ok_def store_ok_def)
  then have "flight_ok (disk_of p)
      (filter (\<lambda>m. status m = Queued) (messages (readDb (disk_of p))))"
    by (rule flight_ok_snapshot)
  moreover from tick(2) have "one_at_a_time (in_flight p @
      [filter (\<lambda>m. status m = Queued) (messages (readDb (disk_of p)))])"
    by (intro one_at_a_time_tick) simp
  ultimately show ?thesis using ok tick(1) by (simp add: process_ok_def)
next
  case (delivered k msg rest now)
  from ok have st: "store_ok (readDb (disk_of p))"
    and fl: "flight_ok (disk_of p) (msg # rest)" and one: "one_at_a_time (in_flight p)"
    using delivered(2,3) by (auto simp: process_ok_def dest: nth_mem)
  from st have dist: "distinct (map id_m (messages (readDb (disk_of p))))"
    by (simp add: store_ok_def)
  from fl have q: "\<forall>m \<in> set (messages (readDb (disk_of p))).
      id_m m = id_m msg \<longrightarrow> status m = Queued"
    by (simp add: flight_ok_def)
  have a: "store_ok (readDb (write_back (mark_sent now) (id_m msg) (disk_of p)))"
    using st q by (rule store_ok_write_back_queued)
      (simp_all add: id_m_mark_sent lifecycle_ok_mark_sent)
  have b: "flight_ok (write_back (mark_sent now) (id_m msg) (disk_of p)) rest"
    using dist fl by (rule flight_ok_write_back) (simp add: id_m_mark_sent)
  have c: "flight_ok (write_back (mark_sent now) (id_m msg) (disk_of p)) f"
    if "f \<in> set ((in_flight p)[k := rest])" for f
    using others_ended [OF one delivered(2) _ that] delivered(3) b
    by (auto simp: flight_ok_Nil)
  have d: "one_at_a_time ((in_flight p)[k := rest])"
    using one delivered(2) delivered(3) by (intro one_at_a_time_update) simp_all
  from a c d show ?thesis by (simp add: delivered(1) process_ok_def)
next
  case (not_delivered k msg rest err now)
  from ok have st: "store_ok (readDb (disk_of p))"
    and fl: "flight_ok (disk_of p) (msg # rest)" and one: "one_at_a_time (in_flight p)"
    using not_delivered(2,3) by (auto simp: process_ok_def dest: nth_mem)
  from st have dist: "distinct (map id_m (messages (readDb (disk_of p))))"
    by (simp add: store_ok_def)
  from fl have q: "\<forall>m \<in> set (messages (readDb (disk_of p))).
      id_m m = id_m msg \<longrightarrow> status m = Queued"
    by (simp add: flight_ok_def)
  have a: "store_ok (readDb (write_back (mark_failed err now) (id_m msg) (disk_of p)))"
    using st q by (rule store_ok_write_back_queued)
      (simp_all add: id_m_mark_failed lifecycle_ok_mark_failed)
  have b: "flight_ok (write_back (mark_failed err now) (id_m msg) (disk_of p)) rest"
    using dist fl by (rule flight_ok_write_back) (simp add: id_m_mark_failed)
  have c: "flight_ok (write_back (mark_failed err now) (id_m msg) (disk_of p)) f"
    if "f \<in> set ((in_flight p)[k := rest])" for f
    using others_ended [OF one not_delivered(2) _ that] not_delivered(3) b
    by (auto simp: flight_ok_Nil)
  have d: "one_at_a_time ((in_flight p)[k := rest])"
    using one not_delivered(2) not_delivered(3) by (intro one_at_a_time_update) simp_all
  from a c d show ?thesis by (simp add: not_delivered(1) process_ok_def)
qed

lemma reachable_process_ok: "reachable False p \<Longrightarrow> process_ok p"
proof (induction rule: reachable.induct)
  case no_file
  show ?case
    by (simp add: process_ok_def readDb_None store_ok_empty one_at_a_time_def)
next
  case damaged
  show ?case
    by (simp add: process_ok_def readDb_Garbage store_ok_empty one_at_a_time_def)
next
  case (boot p)
  then show ?case by (simp add: process_ok_def readDb_startup one_at_a_time_def)
next
  case (move p p')
  then show ?case using process_ok_step by blast
qed

subsection \<open>A cycle that runs alone is a run of the process\<close>

lemma reachable_steps:
  assumes "(step overlap)\<^sup>*\<^sup>* p p'" and "reachable overlap p"
  shows "reachable overlap p'"
  using assms by (induction rule: rtranclp_induct) (auto intro: reachable.move)

lemma send_queued_steps:
  assumes "k < length fl" and "fl ! k = qs"
  shows "(step overlap)\<^sup>*\<^sup>* \<lparr>disk_of = d, in_flight = fl\<rparr>
           \<lparr>disk_of = fst (snd (send_queued S qs w d)), in_flight = fl[k := []]\<rparr>"
  using assms
proof (induction qs arbitrary: w d fl)
  case Nil
  then have "fl[k := []] = fl" by (metis list_update_id)
  then show ?case by simp
next
  case (Cons q rest)
  from send_queued_step [of S q rest w d] obtain g w' where
    g: "(\<exists>t. g = mark_sent t) \<or> (\<exists>e t. g = mark_failed e t)" and
    unfold: "fst (snd (send_queued S (q # rest) w d)) =
               fst (snd (send_queued S rest w' (write_back g (id_m q) d)))"
    by blast
  let ?p = "\<lparr>disk_of = d, in_flight = fl\<rparr>"
  have k: "k < length (in_flight ?p)" and hd: "in_flight ?p ! k = q # rest"
    using Cons.prems by simp_all
  have one: "step overlap ?p \<lparr>disk_of = write_back g (id_m q) d, in_flight = fl[k := rest]\<rparr>"
    using g
  proof (elim disjE exE)
    fix t assume "g = mark_sent t"
    with step.delivered [OF k hd, of overlap t] show ?thesis by simp
  next
    fix e t assume "g = mark_failed e t"
    with step.not_delivered [OF k hd, of overlap e t] show ?thesis by simp
  qed
  have "k < length (fl[k := rest])" and "fl[k := rest] ! k = rest"
    using Cons.prems(1) by simp_all
  from Cons.IH [OF this, of "write_back g (id_m q) d" w']
  have "(step overlap)\<^sup>*\<^sup>*
          \<lparr>disk_of = write_back g (id_m q) d, in_flight = fl[k := rest]\<rparr>
          \<lparr>disk_of = fst (snd (send_queued S rest w' (write_back g (id_m q) d))),
           in_flight = fl[k := []]\<rparr>"
    by simp
  with one have "(step overlap)\<^sup>*\<^sup>* ?p
          \<lparr>disk_of = fst (snd (send_queued S rest w' (write_back g (id_m q) d))),
           in_flight = fl[k := []]\<rparr>"
    by (rule converse_rtranclp_into_rtranclp)
  then show ?case by (simp only: unfold)
qed

lemma processQueueOnce_steps:
  assumes "\<forall>f \<in> set fl. f = []"
  shows "\<exists>fl'. (step overlap)\<^sup>*\<^sup>* \<lparr>disk_of = d, in_flight = fl\<rparr>
           \<lparr>disk_of = disk_after (processQueueOnce S w d), in_flight = fl'\<rparr> \<and>
           (\<forall>f \<in> set fl'. f = [])"
proof -
  let ?qs = "filter (\<lambda>m. status m = Queued) (messages (readDb d))"
  from processQueueOnce_cases [of S w d] show ?thesis
  proof (elim disjE conjE exE)
    assume "disk_after (processQueueOnce S w d) = d"
    with assms show ?thesis by (intro exI [of _ fl]) simp
  next
    fix w1
    assume disk: "disk_after (processQueueOnce S w d) = fst (snd (send_queued S ?qs w1 d))"
    show ?thesis
    proof (cases "?qs = []")
      case True
      with disk assms show ?thesis by (intro exI [of _ fl]) simp
    next
      case False
      let ?p = "\<lparr>disk_of = d, in_flight = fl\<rparr>"
      have "step overlap ?p (?p\<lparr>in_flight := in_flight ?p @
              [filter (\<lambda>m. status m = Queued) (messages (readDb (disk_of ?p)))]\<rparr>)"
        using assms False by (intro step.tick) simp_all
      then have one: "step overlap ?p \<lparr>disk_of = d, in_flight = fl @ [?qs]\<rparr>" by simp
      have "length fl < length (fl @ [?qs])" and "(fl @ [?qs]) ! length fl = ?qs" by simp_all
      from send_queued_steps [OF this, of overlap d S w1]
      have "(step overlap)\<^sup>*\<^sup>* \<lparr>disk_of = d, in_flight = fl @ [?qs]\<rparr>
              \<lparr>disk_of = fst (snd (send_queued S ?qs w1 d)), in_flight = fl @ [[]]\<rparr>"
        by simp
      with one have "(step overlap)\<^sup>*\<^sup>* ?p
              \<lparr>disk_of = fst (snd (send_queued S ?qs w1 d)), in_flight = fl @ [[]]\<rparr>"
        by (rule converse_rtranclp_into_rtranclp)
      then have "(step overlap)\<^sup>*\<^sup>* ?p
              \<lparr>disk_of = disk_after (processQueueOnce S w d), in_flight = fl @ [[]]\<rparr>"
        by (simp only: disk)
      then show ?thesis using assms by (intro exI [of _ "fl @ [[]]"]) simp
    qed
  qed
qed

lemma reachable_processQueueOnce:
  assumes "reachable overlap p" and "\<forall>f \<in> set (in_flight p). f = []"
  shows "\<exists>fl'. reachable overlap
           \<lparr>disk_of = disk_after (processQueueOnce S w (disk_of p)), in_flight = fl'\<rparr> \<and>
           (\<forall>f \<in> set fl'. f = [])"
proof -
  from processQueueOnce_steps [OF assms(2), of overlap "disk_of p" S w] obtain fl' where
    run: "(step overlap)\<^sup>*\<^sup>* \<lparr>disk_of = disk_of p, in_flight = in_flight p\<rparr>
            \<lparr>disk_of = disk_after (processQueueOnce S w (disk_of p)), in_flight = fl'\<rparr>"
    and ended: "\<forall>f \<in> set fl'. f = []"
    by blast
  have whole: "\<lparr>disk_of = disk_of p, in_flight = in_flight p\<rparr> = p" by (cases p) simp
  have "reachable overlap \<lparr>disk_of = disk_of p, in_flight = in_flight p\<rparr>"
    using assms(1) by (simp only: whole)
  with run have "reachable overlap
      \<lparr>disk_of = disk_after (processQueueOnce S w (disk_of p)), in_flight = fl'\<rparr>"
    by (rule reachable_steps)
  with ended show ?thesis by blast
qed

subsection \<open>Pairing codes\<close>

lemma toUpperCase_digits36: "map toUpperCase_char digits36 = uppers36"
  by code_simp

lemma length_digits36: "length digits36 = 36"
  by (simp add: digits36_def)

lemma pairing_code_digits:
  "pairing_code ds = map (\<lambda>d. toUpperCase_char (digits36 ! d)) (take 6 ds)"
  by (simp add: pairing_code_def toUpperCase_def slice_def toString36_def take_map)

lemma upper_digit_in_uppers36:
  assumes "d < 36"
  shows "toUpperCase_char (digits36 ! d) \<in> set uppers36"
proof -
  from assms have "digits36 ! d \<in> set digits36" by (simp add: length_digits36)
  then have "toUpperCase_char (digits36 ! d) \<in> set (map toUpperCase_char digits36)"
    by simp
  then show ?thesis by (simp only: toUpperCase_digits36)
qed

subsection \<open>The example run\<close>

lemma example_disk_value:
  "example_disk = Some (Json \<lparr>messages =
      [\<lparr>id_m = ''id-1'', toThreadId = ''12345'', text_m = ''hello'', senderName = None,
        createdAt = ''2026-01-01T00:00:01.000Z'', status = Queued, lastError = None,
        sentAt = None, attemptedAt = None\<rparr>,
       \<lparr>id_m = ''id-2'', toThreadId = ''nobody'', text_m = ''hi'', senderName = Some ''Aarav'',
        createdAt = ''2026-01-01T00:00:02.000Z'', status = Queued, lastError = None,
        sentAt = None, attemptedAt = None\<rparr>],
      pairings = Map.empty\<rparr>)"
  by (simp add: example_disk_def api_send_def falsy_def Let_def readDb_def readFileSync_def
        JSON_parse_def JSON_stringify_def writeDb_def empty_state_def)

lemma example_disk_messages:
  "messages (readDb example_disk) =
      [\<lparr>id_m = ''id-1'', toThreadId = ''12345'', text_m = ''hello'', senderName = None,
        createdAt = ''2026-01-01T00:00:01.000Z'', status = Queued, lastError = None,
        sentAt = None, attemptedAt = None\<rparr>,
       \<lparr>id_m = ''id-2'', toThreadId = ''nobody'', text_m = ''hi'', senderName = Some ''Aarav'',
        createdAt = ''2026-01-01T00:00:02.000Z'', status = Queued, lastError = None,
        sentAt = None, attemptedAt = None\<rparr>]"
  by (simp add: example_disk_value readDb_def readFileSync_def JSON_parse_def)



lemma hello_disk_messages: "messages (readDb hello_disk) = [queued_hello]"
  by (simp add: hello_disk_def queued_hello_def api_send_def falsy_def Let_def readDb_writeDb
        readDb_None empty_state_def)

lemma example_disk_records: "messages (readDb example_disk) = [queued_hello, queued_hi]"
  by (simp add: example_disk_messages queued_hello_def queued_hi_def)

lemma example_disk_from_hello:
  "example_disk = snd (api_send ''id-2'' ''2026-01-01T00:00:02.000Z''
            \<lparr>body_toThreadId = Some ''nobody'', body_text = Some ''hi'',
             body_senderName = Some ''Aarav''\<rparr> hello_disk)"
  by (simp add: example_disk_def hello_disk_def)

lemma status_queued_hello: "status queued_hello = Queued"
  by (simp add: queued_hello_def)

lemma status_queued_hi: "status queued_hi = Queued"
  by (simp add: queued_hi_def)

lemma id_queued_hello: "id_m queued_hello = ''id-1''"
  by (simp add: queued_hello_def)

lemma id_queued_hi: "id_m queued_hi = ''id-2''"
  by (simp add: queued_hi_def)

lemma reachable_race_start: "reachable overlap race_start"
proof -
  have "step overlap \<lparr>disk_of = None, in_flight = []\<rparr> race_start"
    using step.request_send [of "''id-1''" "\<lparr>disk_of = None, in_flight = []\<rparr>" overlap
        "''2026-01-01T00:00:01.000Z''"
        "\<lparr>body_toThreadId = Some ''12345'', body_text = Some ''hello'',
          body_senderName = None\<rparr>"]
    by (simp add: race_start_def hello_disk_def readDb_None empty_state_def)
  with reachable.no_file show ?thesis by (rule reachable.move)
qed

lemma race_tick1_value:
  "race_tick1 = \<lparr>disk_of = hello_disk, in_flight = [[queued_hello]]\<rparr>"
  by (simp add: race_tick1_def race_start_def hello_disk_messages status_queued_hello)

lemma race_tick2_value:
  "race_tick2 = \<lparr>disk_of = hello_disk, in_flight = [[queued_hello], [queued_hello]]\<rparr>"
  by (simp add: race_tick2_def race_tick1_value hello_disk_messages status_queued_hello)

lemma step_race_tick1: "step overlap race_start race_tick1"
  unfolding race_tick1_def
  by (rule step.tick) (simp_all add: race_start_def hello_disk_messages status_queued_hello)

lemma step_race_tick2: "step True race_tick1 race_tick2"
  unfolding race_tick2_def
  by (rule step.tick) (simp_all add: race_tick1_value hello_disk_messages status_queued_hello)

lemma step_race_sent: "step True race_tick2 race_sent"
  unfolding race_sent_def
  by (rule step.delivered) (simp_all add: race_tick2_value)

lemma race_sent_messages:
  "messages (readDb (disk_of race_sent)) =
     [mark_sent ''2026-01-01T00:00:20.000Z'' queued_hello]"
  by (simp add: race_sent_def race_tick2_value write_back_def hello_disk_messages
        id_queued_hello Let_def readDb_writeDb)

lemma race_sent_flights: "in_flight race_sent = [[], [queued_hello]]"
  by (simp add: race_sent_def race_tick2_value)

lemma step_race_sent_failed: "step True race_sent race_sent_failed"
  unfolding race_sent_failed_def
  by (rule step.not_delivered) (simp_all add: race_sent_flights)

lemma race_sent_failed_messages:
  "messages (readDb (disk_of race_sent_failed)) =
     [mark_failed timeout_error ''2026-01-01T00:01:15.000Z''
        (mark_sent ''2026-01-01T00:00:20.000Z'' queued_hello)]"
  by (simp add: race_sent_failed_def write_back_def race_sent_messages id_queued_hello
        id_m_mark_sent Let_def readDb_writeDb)







lemma reachable_race_tick2: "reachable True race_tick2"
  using reachable_race_start [of True] step_race_tick1 [of True] step_race_tick2
  by (blast intro: reachable.move)

lemma reachable_quiet_start: "reachable overlap quiet_start"
proof -
  have "step overlap race_start quiet_start"
    using step.request_send [of "''id-2''" race_start overlap "''2026-01-01T00:00:02.000Z''"
        "\<lparr>body_toThreadId = Some ''nobody'', body_text = Some ''hi'',
          body_senderName = Some ''Aarav''\<rparr>"]
    by (simp add: race_start_def quiet_start_def example_disk_from_hello hello_disk_messages
          id_queued_hello)
  with reachable_race_start show ?thesis by (rule reachable.move)
qed

lemma quiet_tick_value:
  "quiet_tick = \<lparr>disk_of = example_disk, in_flight = [[queued_hello, queued_hi]]\<rparr>"
  by (simp add: quiet_tick_def quiet_start_def example_disk_records status_queued_hello
        status_queued_hi)

lemma step_quiet_tick: "step overlap quiet_start quiet_tick"
  unfolding quiet_tick_def
  by (rule step.tick)
     (simp_all add: quiet_start_def example_disk_records status_queued_hello status_queued_hi)

lemma step_quiet_first: "step overlap quiet_tick quiet_first"
  unfolding quiet_first_def
  by (rule step.delivered) (simp_all add: quiet_tick_value)

lemma quiet_first_messages:
  "messages (readDb (disk_of quiet_first)) =
     [mark_sent ''2026-01-01T00:00:15.000Z'' queued_hello, queued_hi]"
  by (simp add: quiet_first_def quiet_tick_value write_back_def example_disk_records
        id_queued_hello Let_def readDb_writeDb)

lemma quiet_first_flights: "in_flight quiet_first = [[queued_hi]]"
  by (simp add: quiet_first_def quiet_tick_value)

lemma step_quiet_second: "step overlap quiet_first quiet_second"
  unfolding quiet_second_def
  by (rule step.not_delivered) (simp_all add: quiet_first_flights)

lemma quiet_second_messages:
  "messages (readDb (disk_of quiet_second)) =
     [mark_sent ''2026-01-01T00:00:15.000Z'' queued_hello,
      mark_failed (Error ''Error'' ''Composer not found on thread page'')
        ''2026-01-01T00:00:16.000Z'' queued_hi]"
  by (simp add: quiet_second_def write_back_def quiet_first_messages id_queued_hello
        id_queued_hi id_m_mark_sent Let_def readDb_writeDb)

lemma reachable_quiet_first: "reachable overlap quiet_first"
  using reachable_quiet_start [of overlap] step_quiet_tick [of overlap]
    step_quiet_first [of overlap]
  by (blast intro: reachable.move)

section \<open>The claims\<close>




text \<open>
  \<^bold>\<open>C2.\<close> When \<^verbatim>\<open>ensureBrowser\<close> returns and the login check is fulfilled with false
  or rejected, the cycle leaves the file as it was, so no status changes and no error is
  recorded. If records were queued, it has called the session twice, once to make the
  browser ready and once for the login check, and never to deliver, and it ends at the
  login check; if none were queued it has not called the session at all.
\<close>

theorem not_logged_in_aborts:
  assumes "ensureBrowser S w = (Returned u, w1)"
    and "page_evaluate S w1 = Fulfilled False \<or> (\<exists>e. page_evaluate S w1 = Rejected e)"
  shows "disk_after (processQueueOnce S w d) = d \<and>
         calls (processQueueOnce S w d) =
           (if filter (\<lambda>m. status m = Queued) (messages (readDb d)) = [] then []
            else [EnsureBrowser, PageEvaluate]) \<and>
         ending (processQueueOnce S w d) =
           (if filter (\<lambda>m. status m = Queued) (messages (readDb d)) = [] then NothingQueued
            else NotLoggedIn)"
  using assms by (auto simp: processQueueOnce_def Let_def)

theorem not_logged_in_aborts_witness:
  "ensureBrowser logged_out_session 0 = (Returned (), 0) \<and>
   page_evaluate logged_out_session 0 = Fulfilled False \<and>
   disk_after (processQueueOnce logged_out_session 0 example_disk) = example_disk \<and>
   calls (processQueueOnce logged_out_session 0 example_disk) = [EnsureBrowser, PageEvaluate] \<and>
   ending (processQueueOnce logged_out_session 0 example_disk) = NotLoggedIn \<and>
   page_evaluate rejecting_session 0 = Rejected (Error ''Error'' ''Execution context was destroyed'') \<and>
   disk_after (processQueueOnce rejecting_session 0 example_disk) = example_disk \<and>
   calls (processQueueOnce rejecting_session 0 example_disk) = [EnsureBrowser, PageEvaluate] \<and>
   ending (processQueueOnce rejecting_session 0 example_disk) = NotLoggedIn"
proof -
  have a: "ensureBrowser logged_out_session 0 = (Returned (), 0)"
    and b: "page_evaluate logged_out_session 0 = Fulfilled False"
    by (simp_all add: logged_out_session_def example_session_def)
  have c: "ensureBrowser rejecting_session 0 = (Returned (), 0)"
    and d: "page_evaluate rejecting_session 0 =
      Rejected (Error ''Error'' ''Execution context was destroyed'')"
    by (simp_all add: rejecting_session_def example_session_def)
  from b have b': "page_evaluate logged_out_session 0 = Fulfilled False \<or>
      (\<exists>e. page_evaluate logged_out_session 0 = Rejected e)" by simp
  from d have d': "page_evaluate rejecting_session 0 = Fulfilled False \<or>
      (\<exists>e. page_evaluate rejecting_session 0 = Rejected e)" by simp
  have work: "filter (\<lambda>m. status m = Queued) (messages (readDb example_disk)) \<noteq> []"
    by (simp add: example_disk_messages)
  from not_logged_in_aborts [OF a b', of example_disk]
    not_logged_in_aborts [OF c d', of example_disk] work a b d
  show ?thesis by simp
qed

text \<open>
  \<^bold>\<open>C3.\<close> \<^verbatim>\<open>POST /api/send\<close> answers 400 and leaves the file alone exactly when
  \<^verbatim>\<open>toThreadId\<close> or \<^verbatim>\<open>text\<close> is missing or empty. Otherwise it answers with the new id
  and appends one record with that id, the given thread and text, status queued, and
  neither \<^verbatim>\<open>sentAt\<close> nor \<^verbatim>\<open>attemptedAt\<close>.
\<close>

theorem api_send_validates:
  "if body_toThreadId body = None \<or> body_toThreadId body = Some [] \<or>
      body_text body = None \<or> body_text body = Some []
   then fst (api_send uuid now body d) = Status400 ''toThreadId and text required'' \<and>
        snd (api_send uuid now body d) = d
   else fst (api_send uuid now body d) = SendOk uuid \<and>
        (\<exists>item. messages (readDb (snd (api_send uuid now body d))) =
                   messages (readDb d) @ [item] \<and>
                 id_m item = uuid \<and>
                 Some (toThreadId item) = body_toThreadId body \<and>
                 Some (text_m item) = body_text body \<and>
                 status item = Queued \<and> sentAt item = None \<and> attemptedAt item = None)"
proof (cases "falsy (body_toThreadId body) \<or> falsy (body_text body)")
  case True
  then have "body_toThreadId body = None \<or> body_toThreadId body = Some [] \<or>
      body_text body = None \<or> body_text body = Some []"
    by (auto simp: falsy_def split: option.splits)
  with True show ?thesis by (simp add: api_send_rejects)
next
  case False
  then have ne: "\<not> (body_toThreadId body = None \<or> body_toThreadId body = Some [] \<or>
      body_text body = None \<or> body_text body = Some [])"
    by (auto simp: falsy_def split: option.splits)
  from False have "\<not> falsy (body_toThreadId body)" and "\<not> falsy (body_text body)"
    by simp_all
  from api_send_accepts [OF this, of uuid now d] ne show ?thesis
    by (auto simp: readDb_writeDb)
qed

theorem api_send_validates_witness:
  "fst (api_send ''id-1'' ''2026-01-01T00:00:01.000Z''
          \<lparr>body_toThreadId = Some ''12345'', body_text = Some ''hello'',
           body_senderName = None\<rparr> None) = SendOk ''id-1'' \<and>
   fst (api_send ''id-4'' ''2026-01-01T00:00:30.000Z''
          \<lparr>body_toThreadId = Some ''12345'', body_text = Some '''',
           body_senderName = None\<rparr> example_disk) = Status400 ''toThreadId and text required'' \<and>
   snd (api_send ''id-4'' ''2026-01-01T00:00:30.000Z''
          \<lparr>body_toThreadId = Some ''12345'', body_text = Some '''',
           body_senderName = None\<rparr> example_disk) = example_disk \<and>
   fst (api_send ''id-4'' ''2026-01-01T00:00:30.000Z''
          \<lparr>body_toThreadId = None, body_text = Some ''hello'',
           body_senderName = None\<rparr> example_disk) = Status400 ''toThreadId and text required''"
  using api_send_validates [of "\<lparr>body_toThreadId = Some ''12345'', body_text = Some ''hello'',
           body_senderName = None\<rparr>" "''id-1''" "''2026-01-01T00:00:01.000Z''" None]
    api_send_validates [of "\<lparr>body_toThreadId = Some ''12345'', body_text = Some '''',
           body_senderName = None\<rparr>" "''id-4''" "''2026-01-01T00:00:30.000Z''" example_disk]
    api_send_validates [of "\<lparr>body_toThreadId = None, body_text = Some ''hello'',
           body_senderName = None\<rparr>" "''id-4''" "''2026-01-01T00:00:30.000Z''" example_disk]
  by simp

text \<open>
  \<^bold>\<open>C4\<close>, as amended. In every state that the process reaches, however requests and
  cycles follow each other, a queued record has neither \<^verbatim>\<open>sentAt\<close> nor \<^verbatim>\<open>attemptedAt\<close>,
  a sent record has \<^verbatim>\<open>sentAt\<close> and a failed record has \<^verbatim>\<open>attemptedAt\<close>. When no cycle
  starts before the earlier ones have ended, a record that is no longer queued has
  exactly one of the two.
\<close>

theorem timestamps_follow_status:
  assumes "reachable overlap p" and "m \<in> set (messages (readDb (disk_of p)))"
  shows "(status m = Queued \<longrightarrow> sentAt m = None \<and> attemptedAt m = None) \<and>
         (status m = Sent \<longrightarrow> sentAt m \<noteq> None) \<and>
         (status m = Failed \<longrightarrow> attemptedAt m \<noteq> None) \<and>
         (\<not> overlap \<longrightarrow> status m \<noteq> Queued \<longrightarrow> (sentAt m = None) \<noteq> (attemptedAt m = None))"
proof -
  from reachable_stamped [OF assms(1)] assms(2) have stamped: "status_stamped m" by simp
  have "(sentAt m = None) \<noteq> (attemptedAt m = None)" if "\<not> overlap" "status m \<noteq> Queued"
  proof -
    from that(1) assms(1) have "reachable False p" by simp
    from reachable_process_ok [OF this] assms(2) have "lifecycle_ok m"
      by (simp add: process_ok_def store_ok_def list_all_iff)
    with that(2) show ?thesis by (cases "status m") (simp_all add: lifecycle_ok_def)
  qed
  with stamped show ?thesis by (cases "status m") (simp_all add: status_stamped_def)
qed

theorem timestamps_follow_status_witness:
  "reachable False quiet_second \<and>
   status (messages (readDb (disk_of quiet_second)) ! 0) = Sent \<and>
   sentAt (messages (readDb (disk_of quiet_second)) ! 0) \<noteq> None \<and>
   attemptedAt (messages (readDb (disk_of quiet_second)) ! 0) = None \<and>
   status (messages (readDb (disk_of quiet_second)) ! 1) = Failed \<and>
   sentAt (messages (readDb (disk_of quiet_second)) ! 1) = None \<and>
   attemptedAt (messages (readDb (disk_of quiet_second)) ! 1) \<noteq> None \<and>
   reachable True race_sent_failed \<and>
   status (messages (readDb (disk_of race_sent_failed)) ! 0) = Failed \<and>
   attemptedAt (messages (readDb (disk_of race_sent_failed)) ! 0) \<noteq> None"
proof -
  have r: "reachable False quiet_second"
    using reachable_quiet_first [of False] step_quiet_second [of False]
    by (rule reachable.move)
  have r': "reachable True race_sent_failed"
    using reachable_race_tick2 step_race_sent step_race_sent_failed
    by (blast intro: reachable.move)
  have m0: "messages (readDb (disk_of quiet_second)) ! 0 \<in>
      set (messages (readDb (disk_of quiet_second)))"
    and m1: "messages (readDb (disk_of quiet_second)) ! 1 \<in>
      set (messages (readDb (disk_of quiet_second)))"
    by (simp_all add: quiet_second_messages)
  have n0: "messages (readDb (disk_of race_sent_failed)) ! 0 \<in>
      set (messages (readDb (disk_of race_sent_failed)))"
    by (simp add: race_sent_failed_messages)
  have s0: "status (messages (readDb (disk_of quiet_second)) ! 0) = Sent"
    and s1: "status (messages (readDb (disk_of quiet_second)) ! 1) = Failed"
    by (simp_all add: quiet_second_messages mark_sent_def mark_failed_def)
  have t0: "status (messages (readDb (disk_of race_sent_failed)) ! 0) = Failed"
    by (simp add: race_sent_failed_messages mark_failed_def)
  from timestamps_follow_status [OF r m0] timestamps_follow_status [OF r m1]
    timestamps_follow_status [OF r' n0] s0 s1 t0 r r'
  show ?thesis by auto
qed

text \<open>
  \<^bold>\<open>C4\<close>, as stated, fails when cycles overlap: both cycles keep the record while it is
  queued, the first marks it sent, the second marks it failed, and neither write-back
  looks at the status. The record is failed and has both timestamps.
\<close>

theorem overlapping_cycles_both_timestamps_counterexample:
  "reachable True race_sent_failed \<and>
   status (messages (readDb (disk_of race_sent_failed)) ! 0) = Failed \<and>
   sentAt (messages (readDb (disk_of race_sent_failed)) ! 0) =
     Some ''2026-01-01T00:00:20.000Z'' \<and>
   attemptedAt (messages (readDb (disk_of race_sent_failed)) ! 0) =
     Some ''2026-01-01T00:01:15.000Z''"
proof -
  have "reachable True race_sent_failed"
    using reachable_race_tick2 step_race_sent step_race_sent_failed
    by (blast intro: reachable.move)
  then show ?thesis
    by (simp add: race_sent_failed_messages mark_sent_def mark_failed_def queued_hello_def)
qed




text \<open>
  \<^bold>\<open>C6.\<close> \<^verbatim>\<open>POST /api/clear-queue\<close> leaves no message, whatever the statuses were,
  and the same pairings.
\<close>

theorem clear_queue_keeps_pairings:
  "messages (readDb (api_clear_queue d)) = [] \<and>
   pairings (readDb (api_clear_queue d)) = pairings (readDb d)"
  by (simp add: api_clear_queue_def Let_def readDb_writeDb)

text \<open>
  \<^bold>\<open>C7.\<close> When the file cannot be read, or its text does not parse, \<^verbatim>\<open>readDb\<close>
  returns the empty state: no messages, no pairings.
\<close>

theorem readDb_self_heals:
  assumes "(\<exists>e. readFileSync d = Inl e) \<or>
           (\<exists>c e. readFileSync d = Inr c \<and> JSON_parse c = Inl e)"
  shows "readDb d = \<lparr>messages = [], pairings = Map.empty\<rparr>"
  using assms by (auto simp: readDb_def empty_state_def)

theorem readDb_self_heals_witness:
  "readFileSync None = Inl (Error ''Error'' ''ENOENT: no such file or directory'') \<and>
   readDb None = \<lparr>messages = [], pairings = Map.empty\<rparr> \<and>
   readFileSync (Some Garbage) = Inr Garbage \<and>
   JSON_parse Garbage = Inl (Error ''SyntaxError'' ''Unexpected token'') \<and>
   readDb (Some Garbage) = \<lparr>messages = [], pairings = Map.empty\<rparr>"
proof -
  have a: "readFileSync None = Inl (Error ''Error'' ''ENOENT: no such file or directory'')"
    by (simp add: readFileSync_def)
  have b: "readFileSync (Some Garbage) = Inr Garbage"
    by (simp add: readFileSync_def)
  have c: "JSON_parse Garbage = Inl (Error ''SyntaxError'' ''Unexpected token'')"
    by (simp add: JSON_parse_def)
  from a have "readDb None = \<lparr>messages = [], pairings = Map.empty\<rparr>"
    by (intro readDb_self_heals) blast
  moreover from b c have "readDb (Some Garbage) = \<lparr>messages = [], pairings = Map.empty\<rparr>"
    by (intro readDb_self_heals) blast
  ultimately show ?thesis using a b c by simp
qed

text \<open>
  \<^bold>\<open>C8\<close>, as amended. \<^verbatim>\<open>POST /api/pair\<close> answers with the code, stores the time of
  the call under it, leaves the record under every other code and all messages unchanged,
  and removes no pairing.
\<close>

theorem api_pair_writes_one_code:
  "fst (api_pair ds now d) = pairing_code ds \<and>
   pairings (readDb (snd (api_pair ds now d))) (pairing_code ds) = Some \<lparr>createdAt_p = now\<rparr> \<and>
   (\<forall>code. code \<noteq> pairing_code ds \<longrightarrow>
      pairings (readDb (snd (api_pair ds now d))) code = pairings (readDb d) code) \<and>
   dom (pairings (readDb d)) \<subseteq> dom (pairings (readDb (snd (api_pair ds now d)))) \<and>
   messages (readDb (snd (api_pair ds now d))) = messages (readDb d)"
proof -
  have "pairings (readDb (snd (api_pair ds now d))) =
      (pairings (readDb d))(pairing_code ds \<mapsto> \<lparr>createdAt_p = now\<rparr>)"
    and "messages (readDb (snd (api_pair ds now d))) = messages (readDb d)"
    and "fst (api_pair ds now d) = pairing_code ds"
    by (simp_all add: api_pair_def Let_def readDb_writeDb)
  then show ?thesis by auto
qed

theorem api_pair_writes_one_code_witness:
  "fst (api_pair [18] ''2026-01-02T00:00:00.000Z''
      (snd (api_pair [10, 11, 12, 13, 14, 35, 7, 2, 3, 4, 5] ''2026-01-01T00:00:00.000Z'' None)))
     = ''I'' \<and>
   pairings (readDb (snd (api_pair [18] ''2026-01-02T00:00:00.000Z''
      (snd (api_pair [10, 11, 12, 13, 14, 35, 7, 2, 3, 4, 5] ''2026-01-01T00:00:00.000Z'' None)))))
      ''I'' = Some \<lparr>createdAt_p = ''2026-01-02T00:00:00.000Z''\<rparr> \<and>
   pairings (readDb (snd (api_pair [18] ''2026-01-02T00:00:00.000Z''
      (snd (api_pair [10, 11, 12, 13, 14, 35, 7, 2, 3, 4, 5] ''2026-01-01T00:00:00.000Z'' None)))))
      ''ABCDEZ'' = Some \<lparr>createdAt_p = ''2026-01-01T00:00:00.000Z''\<rparr>"
proof -
  let ?d1 = "snd (api_pair [10, 11, 12, 13, 14, 35, 7, 2, 3, 4, 5] ''2026-01-01T00:00:00.000Z'' None)"
  have c1: "pairing_code [10, 11, 12, 13, 14, 35, 7, 2, 3, 4, 5] = ''ABCDEZ''" by code_simp
  have c2: "pairing_code [18] = ''I''" by code_simp
  from api_pair_writes_one_code [of "[10, 11, 12, 13, 14, 35, 7, 2, 3, 4, 5]"
      "''2026-01-01T00:00:00.000Z''" None]
  have first: "pairings (readDb ?d1) ''ABCDEZ'' = Some \<lparr>createdAt_p = ''2026-01-01T00:00:00.000Z''\<rparr>"
    by (simp add: c1)
  from api_pair_writes_one_code [of "[18]" "''2026-01-02T00:00:00.000Z''" ?d1]
  have "fst (api_pair [18] ''2026-01-02T00:00:00.000Z'' ?d1) = ''I''"
    and "pairings (readDb (snd (api_pair [18] ''2026-01-02T00:00:00.000Z'' ?d1))) ''I'' =
      Some \<lparr>createdAt_p = ''2026-01-02T00:00:00.000Z''\<rparr>"
    and "pairings (readDb (snd (api_pair [18] ''2026-01-02T00:00:00.000Z'' ?d1))) ''ABCDEZ'' =
      pairings (readDb ?d1) ''ABCDEZ''"
    by (simp_all add: c2)
  with first show ?thesis by simp
qed

text \<open>
  \<^bold>\<open>C8\<close>, as stated, fails: the code is made of the first six digits only, so two
  different random numbers give the same code, and the second call replaces the
  \<^verbatim>\<open>createdAt\<close> that the first one stored.
\<close>

theorem later_pairing_overwrites_counterexample:
  "fst (api_pair [10, 11, 12, 13, 14, 35, 7, 2, 3, 4, 5] ''2026-01-01T00:00:00.000Z'' None)
     = ''ABCDEZ'' \<and>
   pairings (readDb
      (snd (api_pair [10, 11, 12, 13, 14, 35, 7, 2, 3, 4, 5] ''2026-01-01T00:00:00.000Z'' None)))
      ''ABCDEZ'' = Some \<lparr>createdAt_p = ''2026-01-01T00:00:00.000Z''\<rparr> \<and>
   fst (api_pair [10, 11, 12, 13, 14, 35, 9, 8, 7, 6, 5] ''2026-01-02T00:00:00.000Z''
      (snd (api_pair [10, 11, 12, 13, 14, 35, 7, 2, 3, 4, 5] ''2026-01-01T00:00:00.000Z'' None)))
     = ''ABCDEZ'' \<and>
   pairings (readDb (snd (api_pair [10, 11, 12, 13, 14, 35, 9, 8, 7, 6, 5] ''2026-01-02T00:00:00.000Z''
      (snd (api_pair [10, 11, 12, 13, 14, 35, 7, 2, 3, 4, 5] ''2026-01-01T00:00:00.000Z'' None)))))
      ''ABCDEZ'' = Some \<lparr>createdAt_p = ''2026-01-02T00:00:00.000Z''\<rparr>"
proof -
  have c1: "pairing_code [10, 11, 12, 13, 14, 35, 7, 2, 3, 4, 5] = ''ABCDEZ''" by code_simp
  have c2: "pairing_code [10, 11, 12, 13, 14, 35, 9, 8, 7, 6, 5] = ''ABCDEZ''" by code_simp
  show ?thesis by (simp add: api_pair_def Let_def readDb_writeDb c1 c2)
qed

text \<open>
  \<^bold>\<open>C9.\<close> The write-back reads the file again; when no record there has the id of the
  message, for instance after the queue was cleared, it writes nothing and the disk stays
  as it is, after a delivery as well as after a failure.
\<close>

theorem write_back_skips_missing_record:
  assumes "msg_id \<notin> id_m ` set (messages (readDb d))"
  shows "write_back (mark_sent now) msg_id d = d \<and>
         write_back (mark_failed err now) msg_id d = d"
proof -
  from assms have "find_ref (\<lambda>m. id_m m = msg_id) (messages (readDb d)) = None"
    by (auto simp: find_ref_None)
  then show ?thesis by (simp add: write_back_def)
qed

theorem write_back_skips_missing_record_witness:
  "''id-1'' \<in> id_m ` set (messages (readDb example_disk)) \<and>
   ''id-1'' \<notin> id_m ` set (messages (readDb (api_clear_queue example_disk))) \<and>
   write_back (mark_sent ''2026-01-01T00:00:15.000Z'') ''id-1'' (api_clear_queue example_disk) =
     api_clear_queue example_disk \<and>
   write_back (mark_failed (Error ''TimeoutError'' ''Navigation timeout of 60000 ms exceeded'')
       ''2026-01-01T00:00:15.000Z'') ''id-1'' (api_clear_queue example_disk) =
     api_clear_queue example_disk"
proof -
  have gone: "''id-1'' \<notin> id_m ` set (messages (readDb (api_clear_queue example_disk)))"
    by (simp add: api_clear_queue_def Let_def readDb_writeDb)
  have there: "''id-1'' \<in> id_m ` set (messages (readDb example_disk))"
    by (simp add: example_disk_messages)
  from write_back_skips_missing_record [OF gone] gone there show ?thesis by simp
qed

text \<open>
  \<^bold>\<open>C10.\<close> A pairing code consists of digits and upper-case letters only and has at
  most six characters: as many as the random number has fractional digits in radix 36
  when these are fewer than six, so it can be shorter than six and even empty.
\<close>

theorem pairing_code_shape:
  assumes "\<forall>d \<in> set ds. d < 36"
  shows "set (pairing_code ds) \<subseteq> set ''0123456789ABCDEFGHIJKLMNOPQRSTUVWXYZ'' \<and>
         length (pairing_code ds) \<le> 6 \<and>
         length (pairing_code ds) = min 6 (length ds)"
proof -
  have "c \<in> set uppers36" if "c \<in> set (pairing_code ds)" for c
  proof -
    from that obtain d where "d \<in> set (take 6 ds)" and c: "c = toUpperCase_char (digits36 ! d)"
      by (auto simp: pairing_code_digits)
    then have "d \<in> set ds" by (auto dest: in_set_takeD)
    with assms have "d < 36" by simp
    with c show ?thesis by (simp add: upper_digit_in_uppers36)
  qed
  then have "set (pairing_code ds) \<subseteq> set uppers36" by blast
  moreover have "length (pairing_code ds) = min 6 (length ds)"
    by (simp add: pairing_code_digits min.commute)
  ultimately show ?thesis by (simp add: uppers36_def)
qed

theorem pairing_code_shape_witness:
  "length (pairing_code [18]) = 1 \<and> pairing_code [18] = ''I'' \<and>
   length (pairing_code []) = 0 \<and>
   set (pairing_code [10, 11, 12, 13, 14, 35, 1, 2]) \<subseteq> set ''0123456789ABCDEFGHIJKLMNOPQRSTUVWXYZ'' \<and>
   length (pairing_code [10, 11, 12, 13, 14, 35, 1, 2]) = 6 \<and>
   pairing_code [10, 11, 12, 13, 14, 35, 1, 2] = ''ABCDEZ''"
proof -
  have a: "\<forall>d \<in> set [18::nat]. d < 36" by simp
  have b: "\<forall>d \<in> set ([]::nat list). d < 36" by simp
  have c: "\<forall>d \<in> set [10, 11, 12, 13, 14, 35, 1, 2::nat]. d < 36" by simp
  have "pairing_code [18] = ''I''"
    by code_simp
  moreover have "pairing_code [10, 11, 12, 13, 14, 35, 1, 2] = ''ABCDEZ''"
    by code_simp
  ultimately show ?thesis
    using pairing_code_shape [OF a] pairing_code_shape [OF b] pairing_code_shape [OF c]
    by simp
qed

end
